theory Spec2Isabelle
  imports Complex_Main
begin

section \<open>Chinese Restaurant Process clustering by collapsed Gibbs sampling\<close>

text \<open>
  A shallow embedding of the class \<open>CRPClusterModel\<close> of \<open>CRP_cluster.ipynb\<close>.

  \<^item> Python floats are modelled by \<open>real\<close>, in exact arithmetic: the model is the code
    on the inputs whose double-precision results are exact, and says nothing about
    rounding, overflow or underflow.
  \<^item> The notebook runs under Python 2. The sampler object of the model holds a float
    \<open>alpha\<close>, as in every call of the notebook; the prior itself is modelled for an
    \<open>alpha\<close> of either number type.
  \<^item> Every raise of the source is a value \<open>Inl e\<close> of the result type \<open>error + 'a\<close>.
  \<^item> The Python \<open>set\<close> objects that hold the clusters are shared between the list
    \<open>clustering\<close> and the list \<open>cluster_assn\<close>; the model keeps them in an explicit
    store (a list of sets addressed by position) and both lists hold addresses.
  \<^item> The global generator behind \<open>np.random\<close> is a state of type \<open>'g\<close>, threaded through
    every call; the function that draws one uniform sample from it is a parameter.
\<close>

subsection \<open>Errors\<close>

datatype error =
    ZeroDivisionError
  | ValueError_broadcast
  | ValueError_choice
  | ValueError_remove
  | IndexError
  | KeyError

subsection \<open>The sampler object and the partition state\<close>

text \<open>
  The likelihood function is called with the dataset, the item, the clusters and the
  cluster of every item; it reads the sets and returns a list of floats. The sampler
  object has the five attributes that \<open>__init__\<close> sets; a partition state is the store
  of set objects with the two lists of references into it.
\<close>

type_synonym 'd likelihood = "'d list \<Rightarrow> nat \<Rightarrow> nat set list \<Rightarrow> nat set list \<Rightarrow> real list"

record 'd crp_model =
  alpha :: real
  likelihood_fn :: "'d likelihood"
  num_iter :: int
  eb_start :: int
  eb_interval :: int

record pstate =
  store :: "nat set list"
  clustering :: "nat list"
  cluster_assn :: "nat list"

type_synonym 'g source = "'g \<Rightarrow> real \<times> 'g"

text \<open>\<open>__init__\<close>: stores its two arguments and sets the three sampling parameters.\<close>

definition CRPClusterModel :: "real \<Rightarrow> 'd likelihood \<Rightarrow> error + 'd crp_model" where
  "CRPClusterModel a lf =
     Inr \<lparr>alpha = a, likelihood_fn = lf, num_iter = 100, eb_start = 20, eb_interval = 5\<rparr>"

text \<open>The sets behind a list of references, as the likelihood function reads them.\<close>

definition deref :: "pstate \<Rightarrow> nat list \<Rightarrow> nat set list" where
  "deref st as = map (\<lambda>a. store st ! a) as"

subsection \<open>Python numbers\<close>

text \<open>
  A Python number is an \<open>int\<close> or a \<open>float\<close>. \<open>n + a\<close> for an int \<open>n\<close> is an int when \<open>a\<close> is
  one and a float otherwise. The operator \<open>/\<close> of Python 2 on two ints is the floor
  division; with a float on either side it is the division of floats. Both raise on a
  zero divisor.
\<close>

datatype pynum = PyInt int | PyFloat real

fun py_real :: "pynum \<Rightarrow> real" where
  "py_real (PyInt k) = real_of_int k"
| "py_real (PyFloat x) = x"

fun py_int_add :: "int \<Rightarrow> pynum \<Rightarrow> pynum" where
  "py_int_add n (PyInt k) = PyInt (n + k)"
| "py_int_add n (PyFloat x) = PyFloat (real_of_int n + x)"

fun py2_div :: "pynum \<Rightarrow> pynum \<Rightarrow> error + pynum" where
  "py2_div (PyInt a) (PyInt b) =
     (if b = 0 then Inl ZeroDivisionError else Inr (PyInt (a div b)))"
| "py2_div a b =
     (if py_real b = 0 then Inl ZeroDivisionError else Inr (PyFloat (py_real a / py_real b)))"

subsection \<open>The CRP prior\<close>

text \<open>
  \<open>[(len(x) + 0.0) / (n + alpha) for x in clustering]\<close>, then
  \<open>append(alpha / (n + alpha))\<close>, then \<open>np.array\<close>, which makes floats of all entries. The
  entries of the comprehension are divisions of a float (\<open>+ 0.0\<close>); the appended entry is
  \<open>alpha / (n + alpha)\<close> as Python 2 computes it, the floor division when \<open>alpha\<close> is an
  int. The appended entry is always computed, so the two lines raise exactly when
  \<open>n + alpha\<close> is zero.
\<close>

definition crp_prior :: "int \<Rightarrow> pynum \<Rightarrow> nat set list \<Rightarrow> error + real list" where
  "crp_prior n a cs =
     (let d = py_int_add n a in
      if py_real d = 0 then Inl ZeroDivisionError
      else
        (case py2_div a d of
           Inl e \<Rightarrow> Inl e
         | Inr q \<Rightarrow> Inr (map (\<lambda>x. real (card x) / py_real d) cs @ [py_real q])))"

text \<open>
  The prior of \<open>initialize_assn\<close> for item \<open>i\<close>, where \<open>n\<close> is \<open>i\<close>, on the float \<open>alpha\<close> of
  the sampler object.
\<close>

definition init_prior :: "'d crp_model \<Rightarrow> nat \<Rightarrow> pstate \<Rightarrow> error + real list" where
  "init_prior m i st = crp_prior (int i) (PyFloat (alpha m)) (deref st (clustering st))"

text \<open>The prior of the sweep in \<open>fit\<close>, where \<open>n\<close> is \<open>num_data - 1\<close>.\<close>

definition sweep_prior :: "'d crp_model \<Rightarrow> 'd list \<Rightarrow> pstate \<Rightarrow> error + real list" where
  "sweep_prior m data st =
     crp_prior (int (length data) - 1) (PyFloat (alpha m)) (deref st (clustering st))"

subsection \<open>Combining, normalising and drawing\<close>

text \<open>
  \<open>crp_prior * likelihood\<close> on one-dimensional arrays: numpy multiplies entry by entry
  when the lengths agree, stretches an operand of length one to the length of the other,
  and raises a ValueError otherwise.
\<close>

definition np_multiply :: "real list \<Rightarrow> real list \<Rightarrow> error + real list" where
  "np_multiply xs ys =
     (if length xs = length ys then Inr (map2 (*) xs ys)
      else if length xs = 1 then Inr (map (\<lambda>y. hd xs * y) ys)
      else if length ys = 1 then Inr (map (\<lambda>x. x * hd ys) xs)
      else Inl ValueError_broadcast)"

text \<open>
  \<open>probs / np.sum(probs)\<close>, with the sum and the quotients of exact arithmetic. A zero sum
  does not raise in numpy: every entry of the quotient is then \<open>nan\<close> or infinite (and the
  quotient of an empty array is empty). That outcome is the value \<open>None\<close> here. In double
  precision a sum of finite entries can overflow and a quotient can underflow to a signed
  zero; on such vectors the code and this function differ.
\<close>

definition np_normalize :: "real list \<Rightarrow> real list option" where
  "np_normalize probs =
     (let s = sum_list probs in if s = 0 then None else Some (map (\<lambda>x. x / s) probs))"

fun cumsum :: "real \<Rightarrow> real list \<Rightarrow> real list" where
  "cumsum acc [] = []"
| "cumsum acc (x # xs) = (acc + x) # cumsum (acc + x) xs"

definition atol :: real where
  "atol = 1 / 2 ^ 26"

text \<open>
  \<open>np.random.choice(len(probs), p=probs)\<close>, a function of numpy. It rejects an empty
  population, a negative entry and a sum further than \<open>sqrt(eps) = 2^-26\<close> from one, each
  with a ValueError; otherwise it draws one uniform sample \<open>u\<close>, divides the cumulative
  sums by the last of them and returns the position at which \<open>u\<close> is inserted to the right
  (\<open>searchsorted(u, side='right')\<close>), which is the number of cumulative sums not above \<open>u\<close>.
  A quotient by a zero sum is rejected as well: current versions of numpy raise a
  ValueError on a vector that holds \<open>nan\<close>. The cumulative sums and the comparison with
  \<open>u\<close> are those of exact arithmetic.
\<close>

definition np_random_choice :: "'g source \<Rightarrow> 'g \<Rightarrow> real list option \<Rightarrow> error + nat \<times> 'g" where
  "np_random_choice random_sample g p =
     (case p of
        None \<Rightarrow> Inl ValueError_choice
      | Some ps \<Rightarrow>
          if ps = [] then Inl ValueError_choice
          else if list_ex (\<lambda>x. x < 0) ps then Inl ValueError_choice
          else if \<bar>sum_list ps - 1\<bar> > atol then Inl ValueError_choice
          else
            (let (u, g') = random_sample g;
                 cdf = cumsum 0 ps;
                 cdf' = map (\<lambda>c. c / last cdf) cdf
             in Inr (length (takeWhile (\<lambda>c. c \<le> u) cdf'), g')))"

text \<open>The three lines \<open>probs = crp_prior * likelihood\<close> to \<open>cluster = np.random.choice(...)\<close>.\<close>

definition draw_cluster :: "'g source \<Rightarrow> 'g \<Rightarrow> real list \<Rightarrow> real list \<Rightarrow> error + nat \<times> 'g" where
  "draw_cluster random_sample g prior likelihood =
     (case np_multiply prior likelihood of
        Inl e \<Rightarrow> Inl e
      | Inr probs \<Rightarrow> np_random_choice random_sample g (np_normalize probs))"

subsection \<open>Loops that stop at the first raise\<close>

primrec for_each :: "('a \<Rightarrow> 's \<Rightarrow> error + 's) \<Rightarrow> 'a list \<Rightarrow> 's \<Rightarrow> error + 's" where
  "for_each f [] s = Inr s"
| "for_each f (x # xs) s = (case f x s of Inl e \<Rightarrow> Inl e | Inr s' \<Rightarrow> for_each f xs s')"

subsection \<open>Initialisation\<close>

definition empty_state :: pstate where
  "empty_state = \<lparr>store = [], clustering = [], cluster_assn = []\<rparr>"

text \<open>The body of the loop of \<open>initialize_assn\<close>.\<close>

definition init_step ::
  "'d crp_model \<Rightarrow> 'g source \<Rightarrow> 'd list \<Rightarrow> nat \<Rightarrow> 'g \<times> pstate \<Rightarrow> error + 'g \<times> pstate" where
  "init_step m random_sample data i gs =
     (case gs of (g, st) \<Rightarrow>
       (case init_prior m i st of
          Inl e \<Rightarrow> Inl e
        | Inr prior \<Rightarrow>
           (case draw_cluster random_sample g prior
                   (likelihood_fn m data i (deref st (clustering st)) (deref st (cluster_assn st))) of
              Inl e \<Rightarrow> Inl e
            | Inr (cluster, g') \<Rightarrow>
                if cluster = length (clustering st) then
                  (let a = length (store st)
                   in Inr (g', st\<lparr>store := store st @ [{i}],
                                  clustering := clustering st @ [a],
                                  cluster_assn := cluster_assn st @ [a]\<rparr>))
                else if cluster < length (clustering st) then
                  (let a = clustering st ! cluster
                   in Inr (g', st\<lparr>store := (store st)[a := insert i (store st ! a)],
                                  cluster_assn := cluster_assn st @ [a]\<rparr>))
                else Inl IndexError)))"

definition initialize_assn ::
  "'d crp_model \<Rightarrow> 'g source \<Rightarrow> 'd list \<Rightarrow> 'g \<Rightarrow> error + 'g \<times> pstate" where
  "initialize_assn m random_sample data g =
     for_each (init_step m random_sample data) [0..<length data] (g, empty_state)"

subsection \<open>The Gibbs sweep\<close>

text \<open>
  \<open>list.remove(x)\<close> deletes the first entry that is \<open>x\<close> or compares equal to \<open>x\<close>; two sets
  compare equal when they have the same elements. It raises when there is no such entry.
\<close>

fun list_remove :: "nat set list \<Rightarrow> nat \<Rightarrow> nat list \<Rightarrow> nat list option" where
  "list_remove h a [] = None"
| "list_remove h a (b # bs) =
     (if b = a \<or> h ! b = h ! a then Some bs
      else map_option ((#) b) (list_remove h a bs))"

text \<open>
  \<open>cluster_assn[i].remove(i)\<close>, and the deletion of the cluster from \<open>clustering\<close> when it
  has become empty.
\<close>

definition detach :: "nat \<Rightarrow> pstate \<Rightarrow> error + pstate" where
  "detach i st =
     (if length (cluster_assn st) \<le> i then Inl IndexError
      else
        (let a = cluster_assn st ! i in
         if i \<notin> store st ! a then Inl KeyError
         else
           (let st1 = st\<lparr>store := (store st)[a := store st ! a - {i}]\<rparr> in
            if card (store st1 ! a) = 0 then
              (case list_remove (store st1) a (clustering st1) of
                 None \<Rightarrow> Inl ValueError_remove
               | Some cl \<Rightarrow> Inr (st1\<lparr>clustering := cl\<rparr>))
            else Inr st1)))"

text \<open>
  The body of the inner loop of \<open>fit\<close>; the third component of the loop state is the
  counter \<open>num_new_clusters\<close>.
\<close>

definition sweep_step ::
  "'d crp_model \<Rightarrow> 'g source \<Rightarrow> 'd list \<Rightarrow> nat \<Rightarrow> 'g \<times> pstate \<times> real
     \<Rightarrow> error + 'g \<times> pstate \<times> real" where
  "sweep_step m random_sample data i gsn =
     (case gsn of (g, st0, num_new_clusters) \<Rightarrow>
       (case detach i st0 of
          Inl e \<Rightarrow> Inl e
        | Inr st \<Rightarrow>
           (case sweep_prior m data st of
              Inl e \<Rightarrow> Inl e
            | Inr prior \<Rightarrow>
               (case draw_cluster random_sample g prior
                       (likelihood_fn m data i (deref st (clustering st))
                          (deref st (cluster_assn st))) of
                  Inl e \<Rightarrow> Inl e
                | Inr (cluster, g') \<Rightarrow>
                    if cluster = length (clustering st) then
                      (let a = length (store st)
                       in Inr (g', st\<lparr>store := store st @ [{i}],
                                      clustering := clustering st @ [a],
                                      cluster_assn := (cluster_assn st)[i := a]\<rparr>,
                               num_new_clusters + 1))
                    else if cluster < length (clustering st) then
                      (let a = clustering st ! cluster
                       in Inr (g', st\<lparr>store := (store st)[a := insert i (store st ! a)],
                                      cluster_assn := (cluster_assn st)[i := a]\<rparr>,
                               num_new_clusters))
                    else Inl IndexError))))"

text \<open>
  The Empirical Bayes adjustment at the end of sweep \<open>t\<close>. The remainder is taken first,
  and Python raises on a zero modulus; Python's remainder has the sign of the modulus, as
  \<open>mod\<close> on \<open>int\<close> has.
\<close>

definition empirical_bayes :: "'d crp_model \<Rightarrow> nat \<Rightarrow> real \<Rightarrow> error + 'd crp_model" where
  "empirical_bayes m t num_new_clusters =
     (if eb_interval m = 0 then Inl ZeroDivisionError
      else if int t mod eb_interval m = 0 \<and> int t > eb_start m
        then Inr (m\<lparr>alpha := num_new_clusters\<rparr>)
      else Inr m)"

text \<open>One pass of the outer loop of \<open>fit\<close>: a sweep over all items, then the adjustment.\<close>

definition gibbs_iteration ::
  "'g source \<Rightarrow> 'd list \<Rightarrow> nat \<Rightarrow> 'd crp_model \<times> 'g \<times> pstate
     \<Rightarrow> error + 'd crp_model \<times> 'g \<times> pstate" where
  "gibbs_iteration random_sample data t mgs =
     (case mgs of (m, g, st) \<Rightarrow>
       (case for_each (sweep_step m random_sample data) [0..<length data] (g, st, 0) of
          Inl e \<Rightarrow> Inl e
        | Inr (g', st', num_new_clusters) \<Rightarrow>
           (case empirical_bayes m t num_new_clusters of
              Inl e \<Rightarrow> Inl e
            | Inr m' \<Rightarrow> Inr (m', g', st'))))"

text \<open>\<open>fit\<close>, stopped after the first \<open>T\<close> sweeps.\<close>

definition fit_upto ::
  "'g source \<Rightarrow> 'd list \<Rightarrow> nat \<Rightarrow> 'd crp_model \<Rightarrow> 'g \<Rightarrow> error + 'd crp_model \<times> 'g \<times> pstate" where
  "fit_upto random_sample data T m g =
     (case initialize_assn m random_sample data g of
        Inl e \<Rightarrow> Inl e
      | Inr (g1, st1) \<Rightarrow> for_each (gibbs_iteration random_sample data) [0..<T] (m, g1, st1))"

text \<open>
  \<open>fit\<close>: \<open>range(self.num_iter)\<close> is empty for a negative count. The result carries the
  sampler object as the call leaves it, the generator, and the final partition state.
\<close>

definition fit ::
  "'g source \<Rightarrow> 'd list \<Rightarrow> 'd crp_model \<Rightarrow> 'g \<Rightarrow> error + 'd crp_model \<times> 'g \<times> pstate" where
  "fit random_sample data m g = fit_upto random_sample data (nat (num_iter m)) m g"

subsection \<open>The invariant of the partition state\<close>

text \<open>
  \<open>wf S st\<close>: the items in \<open>S\<close> are the ones currently placed. The addresses in
  \<open>clustering\<close> are distinct and allocated, the sets behind them are finite and non-empty,
  every item of such a set is in \<open>S\<close> and its entry of \<open>cluster_assn\<close> is the address of
  that set, and every item in \<open>S\<close> has an entry that is in \<open>clustering\<close> and holds it.
\<close>

definition wf :: "nat set \<Rightarrow> pstate \<Rightarrow> bool" where
  "wf S st \<longleftrightarrow>
     distinct (clustering st) \<and>
     (\<forall>a\<in>set (clustering st). a < length (store st) \<and> finite (store st ! a) \<and> store st ! a \<noteq> {}) \<and>
     (\<forall>a\<in>set (clustering st). \<forall>i\<in>store st ! a. i \<in> S \<and> cluster_assn st ! i = a) \<and>
     (\<forall>i\<in>S. i < length (cluster_assn st) \<and> cluster_assn st ! i \<in> set (clustering st) \<and>
        i \<in> store st ! (cluster_assn st ! i))"

subsection \<open>Properties of the partition state\<close>

text \<open>
  The clusters, read as the list of sets that \<open>fit\<close> returns: none is empty, two clusters
  at different positions share no item, and together they hold exactly the items
  \<open>0, \<dots>, N - 1\<close>.
\<close>

definition partition_ok :: "nat \<Rightarrow> nat set list \<Rightarrow> bool" where
  "partition_ok N cs \<longleftrightarrow>
     (\<forall>c\<in>set cs. c \<noteq> {}) \<and>
     (\<forall>j<length cs. \<forall>k<length cs. j \<noteq> k \<longrightarrow> cs ! j \<inter> cs ! k = {}) \<and>
     \<Union>(set cs) = {0..<N}"



subsection \<open>Concrete collaborators\<close>

text \<open>
  Likelihood providers and a random source on which the model is run: a provider that
  returns the same vector at every call, one that returns the value one for every
  existing cluster and for the new one, and a source whose uniform samples all have the
  same value (its state is trivial).
\<close>

definition const_likelihood :: "real list \<Rightarrow> 'd likelihood" where
  "const_likelihood v data i cl ca = v"

definition uniform_likelihood :: "'d likelihood" where
  "uniform_likelihood data i cl ca = replicate (length cl + 1) 1"

definition const_source :: "real \<Rightarrow> unit source" where
  "const_source u g = (u, g)"

text \<open>The state of a one-item run: one cluster, which holds item \<open>0\<close>.\<close>

definition one_ok :: "pstate \<Rightarrow> bool" where
  "one_ok st \<longleftrightarrow>
     (\<exists>a. clustering st = [a] \<and> cluster_assn st = [a] \<and> a < length (store st) \<and> store st ! a = {0})"

text \<open>
  The pair that \<open>fit\<close> hands to its caller, every reference replaced by the set it
  points to.
\<close>

definition fit_output ::
  "error + 'd crp_model \<times> 'g \<times> pstate \<Rightarrow> error + nat set list \<times> nat set list" where
  "fit_output r =
     (case r of Inl e \<Rightarrow> Inl e
      | Inr (m, g, st) \<Rightarrow> Inr (deref st (clustering st), deref st (cluster_assn st)))"

text \<open>The condition under which the adjustment overwrites \<open>alpha\<close> after sweep \<open>t\<close>.\<close>

definition eb_fires :: "'d crp_model \<Rightarrow> nat \<Rightarrow> bool" where
  "eb_fires m t \<longleftrightarrow> int t mod eb_interval m = 0 \<and> eb_start m < int t"



text \<open>A sampler object as \<open>__init__\<close> leaves it, and a state with two singleton clusters.\<close>

definition demo_model :: "real \<Rightarrow> 'd likelihood \<Rightarrow> 'd crp_model" where
  "demo_model a lf = \<lparr>alpha = a, likelihood_fn = lf, num_iter = 100, eb_start = 20, eb_interval = 5\<rparr>"

definition two_singletons :: pstate where
  "two_singletons = \<lparr>store = [{0}, {1}], clustering = [0, 1], cluster_assn = [0, 1]\<rparr>"

text \<open>
  The uniform samples that a source produces from a state, one after the other, and two
  sources (or two states of one source) that produce the same samples.
\<close>

fun sample_at :: "'g source \<Rightarrow> 'g \<Rightarrow> nat \<Rightarrow> real" where
  "sample_at rs g 0 = fst (rs g)"
| "sample_at rs g (Suc n) = sample_at rs (snd (rs g)) n"

definition same_samples :: "'g source \<Rightarrow> 'g \<Rightarrow> 'h source \<Rightarrow> 'h \<Rightarrow> bool" where
  "same_samples rs g rs' g' \<longleftrightarrow> (\<forall>n. sample_at rs g n = sample_at rs' g' n)"

text \<open>What a call of \<open>fit\<close> leaves behind, the generator apart: the error, or the sampler
  object and the partition state.\<close>

definition observable ::
  "error + 'd crp_model \<times> 'g \<times> pstate \<Rightarrow> error + 'd crp_model \<times> pstate" where
  "observable r = (case r of Inl e \<Rightarrow> Inl e | Inr (m, g, st) \<Rightarrow> Inr (m, st))"

text \<open>
  A second call of \<open>fit\<close> on the same sampler object, after the generator has been seeded
  again to the state it had before the first call.
\<close>

definition fit_again ::
  "'g source \<Rightarrow> 'd list \<Rightarrow> 'd crp_model \<Rightarrow> 'g \<Rightarrow> error + 'd crp_model \<times> 'g \<times> pstate" where
  "fit_again random_sample data m g =
     (case fit random_sample data m g of
        Inl e \<Rightarrow> Inl e
      | Inr (m', g', st) \<Rightarrow> fit random_sample data m' g)"

text \<open>A provider that gives the first entry the value one and every other entry zero.\<close>

definition first_likelihood :: "'d likelihood" where
  "first_likelihood data i cl ca = 1 # replicate (length cl) 0"

text \<open>A source of equal samples whose state counts the samples drawn.\<close>

definition counting_source :: "real \<Rightarrow> nat source" where
  "counting_source u k = (u, Suc k)"

text \<open>The state in which both items are in one cluster.\<close>

definition one_pair :: pstate where
  "one_pair = \<lparr>store = [{0, 1}], clustering = [0], cluster_assn = [0, 0]\<rparr>"

section \<open>Verification\<close>

subsection \<open>The prior on a float\<close>

lemma crp_prior_float:
  "crp_prior n (PyFloat x) cs =
     (if real_of_int n + x = 0 then Inl ZeroDivisionError
      else Inr (map (\<lambda>c. real (card c) / (real_of_int n + x)) cs @ [x / (real_of_int n + x)]))"
  by (simp add: crp_prior_def)

lemma crp_prior_length: "crp_prior n a cs = Inr prior \<Longrightarrow> length prior = length cs + 1"
  by (auto simp: crp_prior_def Let_def split: if_splits sum.splits)

subsection \<open>The invariant under placing and removing an item\<close>

lemma wf_distinct: "wf S st \<Longrightarrow> distinct (clustering st)"
  unfolding wf_def by blast

lemma wf_cluster:
  "wf S st \<Longrightarrow> a \<in> set (clustering st) \<Longrightarrow>
     a < length (store st) \<and> finite (store st ! a) \<and> store st ! a \<noteq> {}"
  unfolding wf_def by blast

lemma wf_member:
  "wf S st \<Longrightarrow> a \<in> set (clustering st) \<Longrightarrow> j \<in> store st ! a \<Longrightarrow>
     j \<in> S \<and> cluster_assn st ! j = a"
  unfolding wf_def by blast

lemma wf_item:
  "wf S st \<Longrightarrow> i \<in> S \<Longrightarrow>
     i < length (cluster_assn st) \<and> cluster_assn st ! i \<in> set (clustering st) \<and>
     i \<in> store st ! (cluster_assn st ! i)"
  unfolding wf_def by blast

lemma wfI:
  assumes "distinct cl"
    and "\<And>a. a \<in> set cl \<Longrightarrow> a < length h \<and> finite (h ! a) \<and> h ! a \<noteq> {}"
    and "\<And>a j. a \<in> set cl \<Longrightarrow> j \<in> h ! a \<Longrightarrow> j \<in> S \<and> ca ! j = a"
    and "\<And>j. j \<in> S \<Longrightarrow> j < length ca \<and> ca ! j \<in> set cl \<and> j \<in> h ! (ca ! j)"
    and "store st = h" and "clustering st = cl" and "cluster_assn st = ca"
  shows "wf S st"
  unfolding wf_def using assms by blast

lemma wf_empty: "wf {} empty_state"
  by (rule wfI[where h = "[]" and cl = "[]" and ca = "[]"]) (simp_all add: empty_state_def)

lemma wf_new:
  assumes w: "wf S st" and i: "i \<notin> S" "i < length ca" "ca ! i = length (store st)"
    and ca: "\<And>j. j \<in> S \<Longrightarrow> j < length ca \<and> ca ! j = cluster_assn st ! j"
  shows "wf (insert i S)
           (st\<lparr>store := store st @ [{i}], clustering := clustering st @ [length (store st)],
               cluster_assn := ca\<rparr>)"
proof (rule wfI[where h = "store st @ [{i}]" and cl = "clustering st @ [length (store st)]"
         and ca = ca])
  let ?n = "length (store st)"
  have lt: "\<And>a. a \<in> set (clustering st) \<Longrightarrow> a < ?n"
    using wf_cluster[OF w] by blast
  have old: "\<And>a. a \<in> set (clustering st) \<Longrightarrow> (store st @ [{i}]) ! a = store st ! a"
    using lt by (simp add: nth_append)
  have fresh: "?n \<notin> set (clustering st)"
    using lt by blast
  show "distinct (clustering st @ [?n])"
    using wf_distinct[OF w] fresh by simp
  show "a < length (store st @ [{i}]) \<and> finite ((store st @ [{i}]) ! a) \<and>
          (store st @ [{i}]) ! a \<noteq> {}"
    if "a \<in> set (clustering st @ [?n])" for a
  proof -
    from that consider "a \<in> set (clustering st)" | "a = ?n" by auto
    then show ?thesis
    proof cases
      case 1
      with wf_cluster[OF w 1] old[OF 1] show ?thesis by simp
    next
      case 2 then show ?thesis by simp
    qed
  qed
  show "j \<in> insert i S \<and> ca ! j = a"
    if "a \<in> set (clustering st @ [?n])" and "j \<in> (store st @ [{i}]) ! a" for a j
  proof -
    from that(1) consider "a \<in> set (clustering st)" | "a = ?n" by auto
    then show ?thesis
    proof cases
      case 1
      with that(2) have "j \<in> store st ! a" by (simp add: old)
      from wf_member[OF w 1 this] ca show ?thesis by simp
    next
      case 2 with that(2) i show ?thesis by simp
    qed
  qed
  show "j < length ca \<and> ca ! j \<in> set (clustering st @ [?n]) \<and> j \<in> (store st @ [{i}]) ! (ca ! j)"
    if "j \<in> insert i S" for j
  proof -
    from that consider "j = i" | "j \<in> S" by auto
    then show ?thesis
    proof cases
      case 1 then show ?thesis using i by simp
    next
      case 2
      from ca[OF 2] have e: "j < length ca" "ca ! j = cluster_assn st ! j" by simp_all
      from wf_item[OF w 2] have m: "cluster_assn st ! j \<in> set (clustering st)"
        "j \<in> store st ! (cluster_assn st ! j)" by simp_all
      show ?thesis using e m old[OF m(1)] by simp
    qed
  qed
qed simp_all

lemma wf_join:
  assumes w: "wf S st" and i: "i \<notin> S" "i < length ca" "ca ! i = a" and a: "a \<in> set (clustering st)"
    and ca: "\<And>j. j \<in> S \<Longrightarrow> j < length ca \<and> ca ! j = cluster_assn st ! j"
  shows "wf (insert i S)
           (st\<lparr>store := (store st)[a := insert i (store st ! a)], cluster_assn := ca\<rparr>)"
proof (rule wfI[where h = "(store st)[a := insert i (store st ! a)]" and cl = "clustering st"
         and ca = ca])
  let ?h = "(store st)[a := insert i (store st ! a)]"
  have at: "?h ! a = insert i (store st ! a)"
    using wf_cluster[OF w a] by simp
  have other: "\<And>b. b \<noteq> a \<Longrightarrow> ?h ! b = store st ! b"
    by simp
  show "distinct (clustering st)" by (rule wf_distinct[OF w])
  show "b < length ?h \<and> finite (?h ! b) \<and> ?h ! b \<noteq> {}" if "b \<in> set (clustering st)" for b
    using wf_cluster[OF w that] by (cases "b = a") (simp_all add: at)
  show "j \<in> insert i S \<and> ca ! j = b" if b: "b \<in> set (clustering st)" and j: "j \<in> ?h ! b" for b j
  proof (cases "b = a")
    case True
    with j at have "j = i \<or> j \<in> store st ! b" by simp
    then show ?thesis
    proof
      assume "j = i" with i True show ?thesis by simp
    next
      assume "j \<in> store st ! b"
      from wf_member[OF w b this] ca show ?thesis by simp
    qed
  next
    case False
    with j other have "j \<in> store st ! b" by simp
    from wf_member[OF w b this] ca show ?thesis by simp
  qed
  show "j < length ca \<and> ca ! j \<in> set (clustering st) \<and> j \<in> ?h ! (ca ! j)" if "j \<in> insert i S" for j
  proof -
    from that consider "j = i" | "j \<in> S" by auto
    then show ?thesis
    proof cases
      case 1 then show ?thesis using i a at by simp
    next
      case 2
      from ca[OF 2] have e: "j < length ca" "ca ! j = cluster_assn st ! j" by simp_all
      from wf_item[OF w 2] have m: "cluster_assn st ! j \<in> set (clustering st)"
        "j \<in> store st ! (cluster_assn st ! j)" by simp_all
      show ?thesis using e m at by (cases "cluster_assn st ! j = a") simp_all
    qed
  qed
qed simp_all

lemma list_remove_remove1:
  "a \<in> set xs \<Longrightarrow> (\<And>b. b \<in> set xs \<Longrightarrow> b \<noteq> a \<Longrightarrow> h ! b \<noteq> h ! a) \<Longrightarrow>
     list_remove h a xs = Some (remove1 a xs)"
  by (induction xs) auto

lemma wf_drop_cluster:
  assumes w: "wf S st" and i: "i \<in> S" and e: "store st ! (cluster_assn st ! i) = {i}"
  shows "wf (S - {i})
           (st\<lparr>store := (store st)[cluster_assn st ! i := {}],
               clustering := remove1 (cluster_assn st ! i) (clustering st)\<rparr>)"
proof (rule wfI[where h = "(store st)[cluster_assn st ! i := {}]"
         and cl = "remove1 (cluster_assn st ! i) (clustering st)" and ca = "cluster_assn st"])
  let ?a = "cluster_assn st ! i"
  let ?h = "(store st)[?a := {}]"
  have d: "distinct (clustering st)" by (rule wf_distinct[OF w])
  have mem: "\<And>b. b \<in> set (remove1 ?a (clustering st)) \<longleftrightarrow> b \<in> set (clustering st) \<and> b \<noteq> ?a"
    using d by simp
  have other: "\<And>b. b \<noteq> ?a \<Longrightarrow> ?h ! b = store st ! b"
    by simp
  show "distinct (remove1 ?a (clustering st))" using d by simp
  show "b < length ?h \<and> finite (?h ! b) \<and> ?h ! b \<noteq> {}"
    if "b \<in> set (remove1 ?a (clustering st))" for b
  proof -
    from that have b: "b \<in> set (clustering st)" "b \<noteq> ?a" by (simp_all add: mem)
    from wf_cluster[OF w b(1)] other[OF b(2)] show ?thesis by simp
  qed
  show "j \<in> S - {i} \<and> cluster_assn st ! j = b"
    if "b \<in> set (remove1 ?a (clustering st))" and j: "j \<in> ?h ! b" for b j
  proof -
    from that(1) have b: "b \<in> set (clustering st)" "b \<noteq> ?a" by (simp_all add: mem)
    from j other[OF b(2)] have "j \<in> store st ! b" by simp
    from wf_member[OF w b(1) this] have r: "j \<in> S" "cluster_assn st ! j = b" by simp_all
    with b(2) have "j \<noteq> i" by auto
    with r show ?thesis by simp
  qed
  show "j < length (cluster_assn st) \<and> cluster_assn st ! j \<in> set (remove1 ?a (clustering st)) \<and>
          j \<in> ?h ! (cluster_assn st ! j)"
    if "j \<in> S - {i}" for j
  proof -
    from that have j: "j \<in> S" "j \<noteq> i" by simp_all
    from wf_item[OF w j(1)] have r: "j < length (cluster_assn st)"
      "cluster_assn st ! j \<in> set (clustering st)" "j \<in> store st ! (cluster_assn st ! j)"
      by simp_all
    have ne: "cluster_assn st ! j \<noteq> ?a"
    proof
      assume "cluster_assn st ! j = ?a"
      with r(3) e have "j = i" by simp
      with j(2) show False by simp
    qed
    show ?thesis using r ne other[OF ne] by (simp add: mem)
  qed
qed simp_all

lemma wf_shrink_cluster:
  assumes w: "wf S st" and i: "i \<in> S" and e: "store st ! (cluster_assn st ! i) - {i} \<noteq> {}"
  shows "wf (S - {i})
           (st\<lparr>store := (store st)[cluster_assn st ! i := store st ! (cluster_assn st ! i) - {i}]\<rparr>)"
proof (rule wfI[where h = "(store st)[cluster_assn st ! i := store st ! (cluster_assn st ! i) - {i}]"
         and cl = "clustering st" and ca = "cluster_assn st"])
  let ?a = "cluster_assn st ! i"
  let ?h = "(store st)[?a := store st ! ?a - {i}]"
  have a: "?a \<in> set (clustering st)" using wf_item[OF w i] by simp
  have at: "?h ! ?a = store st ! ?a - {i}" using wf_cluster[OF w a] by simp
  have other: "\<And>b. b \<noteq> ?a \<Longrightarrow> ?h ! b = store st ! b"
    by simp
  show "distinct (clustering st)" by (rule wf_distinct[OF w])
  show "b < length ?h \<and> finite (?h ! b) \<and> ?h ! b \<noteq> {}" if "b \<in> set (clustering st)" for b
    using wf_cluster[OF w that] e by (cases "b = ?a") (simp_all add: at)
  show "j \<in> S - {i} \<and> cluster_assn st ! j = b"
    if b: "b \<in> set (clustering st)" and j: "j \<in> ?h ! b" for b j
  proof (cases "b = ?a")
    case True
    with j at have n: "j \<noteq> i" and m: "j \<in> store st ! b" by simp_all
    from wf_member[OF w b m] n show ?thesis by simp
  next
    case False
    with j other have m: "j \<in> store st ! b" by simp
    from wf_member[OF w b m] have r: "j \<in> S" "cluster_assn st ! j = b" by simp_all
    with False have "j \<noteq> i" by auto
    with r show ?thesis by simp
  qed
  show "j < length (cluster_assn st) \<and> cluster_assn st ! j \<in> set (clustering st) \<and>
          j \<in> ?h ! (cluster_assn st ! j)"
    if "j \<in> S - {i}" for j
  proof -
    from that have j: "j \<in> S" "j \<noteq> i" by simp_all
    from wf_item[OF w j(1)] have r: "j < length (cluster_assn st)"
      "cluster_assn st ! j \<in> set (clustering st)" "j \<in> store st ! (cluster_assn st ! j)"
      by simp_all
    show ?thesis using r j(2) at by (cases "cluster_assn st ! j = ?a") simp_all
  qed
qed simp_all

lemma detach_unfold:
  assumes "i < length (cluster_assn st)" and "i \<in> store st ! (cluster_assn st ! i)"
  shows "detach i st =
     (if card ((store st)[cluster_assn st ! i := store st ! (cluster_assn st ! i) - {i}]
                 ! (cluster_assn st ! i)) = 0 then
        (case list_remove ((store st)[cluster_assn st ! i := store st ! (cluster_assn st ! i) - {i}])
                (cluster_assn st ! i) (clustering st) of
           None \<Rightarrow> Inl ValueError_remove
         | Some cl \<Rightarrow>
             Inr (st\<lparr>store := (store st)[cluster_assn st ! i := store st ! (cluster_assn st ! i) - {i}],
                     clustering := cl\<rparr>))
      else Inr (st\<lparr>store := (store st)[cluster_assn st ! i := store st ! (cluster_assn st ! i) - {i}]\<rparr>))"
proof -
  have "\<not> length (cluster_assn st) \<le> i" using assms(1) by simp
  then show ?thesis
    unfolding detach_def Let_def using assms(2) by (simp cong: if_cong option.case_cong)
qed

lemma detach_wf:
  assumes w: "wf S st" and i: "i \<in> S"
  shows "\<exists>st1. detach i st = Inr st1 \<and> wf (S - {i}) st1 \<and>
           cluster_assn st1 = cluster_assn st \<and> length (store st1) = length (store st) \<and>
           i \<notin> store st1 ! (cluster_assn st ! i)"
proof -
  let ?a = "cluster_assn st ! i"
  from wf_item[OF w i] have r: "i < length (cluster_assn st)" "?a \<in> set (clustering st)"
    "i \<in> store st ! ?a" by simp_all
  from wf_cluster[OF w r(2)] have a: "?a < length (store st)" "finite (store st ! ?a)"
    by simp_all
  let ?h = "(store st)[?a := store st ! ?a - {i}]"
  have at: "?h ! ?a = store st ! ?a - {i}" using a(1) by simp
  note step = detach_unfold[OF r(1) r(3)]
  show ?thesis
  proof (cases "store st ! ?a - {i} = {}")
    case True
    with r(3) have e: "store st ! ?a = {i}" by auto
    have h: "?h = (store st)[?a := {}]" by (simp only: True)
    have "?h ! b \<noteq> ?h ! ?a" if b: "b \<in> set (clustering st)" "b \<noteq> ?a" for b
    proof -
      from wf_cluster[OF w b(1)] have "store st ! b \<noteq> {}" by simp
      moreover have "?h ! b = store st ! b" using b(2) by simp
      moreover have "?h ! ?a = {}" using a(1) True by simp
      ultimately show ?thesis by simp
    qed
    with r(2) have lr: "list_remove ?h ?a (clustering st) = Some (remove1 ?a (clustering st))"
      by (rule list_remove_remove1)
    have "card (store st ! ?a - {i}) = 0" by (simp only: True card.empty)
    then have c: "card (?h ! ?a) = 0" using a(1) by simp
    have "detach i st = Inr (st\<lparr>store := ?h, clustering := remove1 ?a (clustering st)\<rparr>)"
      by (simp only: step c lr if_True option.case simp_thms)
    then have "detach i st = Inr (st\<lparr>store := (store st)[?a := {}],
               clustering := remove1 ?a (clustering st)\<rparr>)" (is "_ = Inr ?st1")
      by (simp only: h)
    moreover have "wf (S - {i}) ?st1" by (rule wf_drop_cluster[OF w i e])
    moreover have "cluster_assn ?st1 = cluster_assn st" by simp
    moreover have "length (store ?st1) = length (store st)" by simp
    moreover have "i \<notin> store ?st1 ! ?a" using a(1) by simp
    ultimately show ?thesis by blast
  next
    case False
    with a(2) have "card (store st ! ?a - {i}) \<noteq> 0" by simp
    then have c: "card (?h ! ?a) \<noteq> 0" using a(1) by simp
    have "detach i st = Inr (st\<lparr>store := ?h\<rparr>)" (is "_ = Inr ?st1")
      by (simp only: step c if_False simp_thms)
    moreover have "wf (S - {i}) ?st1" by (rule wf_shrink_cluster[OF w i False])
    moreover have "cluster_assn ?st1 = cluster_assn st" by simp
    moreover have "length (store ?st1) = length (store st)" by simp
    moreover have "i \<notin> store ?st1 ! ?a" using at by simp
    ultimately show ?thesis by blast
  qed
qed

subsection \<open>Steps and loops keep the invariant\<close>

lemma for_each_append:
  "for_each f (xs @ ys) s = (case for_each f xs s of Inl e \<Rightarrow> Inl e | Inr s' \<Rightarrow> for_each f ys s')"
  by (induction xs arbitrary: s) (simp_all split: sum.splits)

lemma for_each_upt_Suc:
  "for_each f [0..<Suc n] s =
     (case for_each f [0..<n] s of Inl e \<Rightarrow> Inl e | Inr s' \<Rightarrow> f n s')"
  by (simp add: for_each_append split: sum.splits)

lemma for_each_upt_invariant:
  assumes step: "\<And>i s s'. i < n \<Longrightarrow> P i s \<Longrightarrow> f i s = Inr s' \<Longrightarrow> P (Suc i) s'"
    and init: "P 0 s0" and run: "for_each f [0..<k] s0 = Inr s'" and k: "k \<le> n"
  shows "P k s'"
  using run k
proof (induction k arbitrary: s')
  case 0
  then show ?case using init by simp
next
  case (Suc k)
  from Suc.prems(1)
  have "(case for_each f [0..<k] s0 of Inl e \<Rightarrow> Inl e | Inr s1 \<Rightarrow> f k s1) = Inr s'"
    by (simp only: for_each_upt_Suc)
  then obtain s1 where r: "for_each f [0..<k] s0 = Inr s1" and l: "f k s1 = Inr s'"
    by (auto split: sum.splits)
  from Suc.IH[OF r] Suc.prems(2) have "P k s1" by simp
  with step[of k s1 s'] l Suc.prems(2) show ?case by simp
qed

lemma init_step_cases:
  assumes "init_step m rs data i (g, st) = Inr (g', st')"
  shows "st' = st\<lparr>store := store st @ [{i}],
                  clustering := clustering st @ [length (store st)],
                  cluster_assn := cluster_assn st @ [length (store st)]\<rparr> \<or>
         (\<exists>c<length (clustering st).
            st' = st\<lparr>store := (store st)[clustering st ! c := insert i (store st ! (clustering st ! c))],
                     cluster_assn := cluster_assn st @ [clustering st ! c]\<rparr>)"
  using assms
  by (auto simp: init_step_def Let_def split: sum.splits prod.splits if_splits)

lemma sweep_step_cases:
  assumes "sweep_step m rs data i (g, st0, n) = Inr (g', st', n')"
  shows "\<exists>st. detach i st0 = Inr st \<and>
           ((st' = st\<lparr>store := store st @ [{i}],
                  clustering := clustering st @ [length (store st)],
                  cluster_assn := (cluster_assn st)[i := length (store st)]\<rparr> \<and> n' = n + 1) \<or>
            (\<exists>c<length (clustering st).
               st' = st\<lparr>store := (store st)[clustering st ! c := insert i (store st ! (clustering st ! c))],
                        cluster_assn := (cluster_assn st)[i := clustering st ! c]\<rparr> \<and> n' = n))"
  using assms
  by (auto simp: sweep_step_def Let_def split: sum.splits prod.splits if_splits)

lemma init_step_wf:
  assumes w: "wf {0..<i} st" and l: "length (cluster_assn st) = i"
    and s: "init_step m rs data i (g, st) = Inr (g', st')"
  shows "wf {0..<Suc i} st' \<and> length (cluster_assn st') = Suc i"
proof -
  have ins: "insert i {0..<i} = {0..<Suc i}" by auto
  have ni: "i \<notin> {0..<i}" by simp
  from init_step_cases[OF s] show ?thesis
  proof (elim disjE exE conjE)
    assume e: "st' = st\<lparr>store := store st @ [{i}],
                  clustering := clustering st @ [length (store st)],
                  cluster_assn := cluster_assn st @ [length (store st)]\<rparr>"
    have "wf (insert i {0..<i}) st'"
      unfolding e by (rule wf_new[OF w ni]) (simp_all add: l nth_append)
    then show ?thesis by (simp add: ins e l)
  next
    fix c assume c: "c < length (clustering st)"
      and e: "st' = st\<lparr>store := (store st)[clustering st ! c := insert i (store st ! (clustering st ! c))],
                     cluster_assn := cluster_assn st @ [clustering st ! c]\<rparr>"
    have "wf (insert i {0..<i}) st'"
      unfolding e by (rule wf_join[OF w ni]) (simp_all add: l c nth_append)
    then show ?thesis by (simp add: ins e l)
  qed
qed

lemma sweep_step_wf:
  assumes w: "wf {0..<N} st0" and l: "length (cluster_assn st0) = N" and i: "i < N"
    and s: "sweep_step m rs data i (g, st0, n) = Inr (g', st', n')"
  shows "wf {0..<N} st' \<and> length (cluster_assn st') = N \<and>
         length (store st0) \<le> length (store st') \<and>
         n' = n + real (length (store st') - length (store st0))"
proof -
  have iS: "i \<in> {0..<N}" using i by simp
  have ins: "insert i ({0..<N} - {i}) = {0..<N}" using i by auto
  have ni: "i \<notin> {0..<N} - {i}" by simp
  from sweep_step_cases[OF s] obtain st where d: "detach i st0 = Inr st"
    and alt: "(st' = st\<lparr>store := store st @ [{i}],
                  clustering := clustering st @ [length (store st)],
                  cluster_assn := (cluster_assn st)[i := length (store st)]\<rparr> \<and> n' = n + 1) \<or>
            (\<exists>c<length (clustering st).
               st' = st\<lparr>store := (store st)[clustering st ! c := insert i (store st ! (clustering st ! c))],
                        cluster_assn := (cluster_assn st)[i := clustering st ! c]\<rparr> \<and> n' = n)"
    by blast
  from detach_wf[OF w iS] d have w1: "wf ({0..<N} - {i}) st"
    and ca: "cluster_assn st = cluster_assn st0" and ls: "length (store st) = length (store st0)"
    by auto
  have l1: "length (cluster_assn st) = N" using ca l by simp
  from alt show ?thesis
  proof (elim disjE exE conjE)
    assume e: "st' = st\<lparr>store := store st @ [{i}],
                  clustering := clustering st @ [length (store st)],
                  cluster_assn := (cluster_assn st)[i := length (store st)]\<rparr>" and n: "n' = n + 1"
    have "wf (insert i ({0..<N} - {i})) st'"
      unfolding e by (rule wf_new[OF w1 ni]) (simp_all add: l1 i)
    then have "wf {0..<N} st'" by (simp only: ins)
    then show ?thesis by (simp add: e l1 ls n)
  next
    fix c assume c: "c < length (clustering st)"
      and e: "st' = st\<lparr>store := (store st)[clustering st ! c := insert i (store st ! (clustering st ! c))],
                        cluster_assn := (cluster_assn st)[i := clustering st ! c]\<rparr>" and n: "n' = n"
    have "wf (insert i ({0..<N} - {i})) st'"
      unfolding e by (rule wf_join[OF w1 ni]) (simp_all add: l1 i c)
    then have "wf {0..<N} st'" by (simp only: ins)
    then show ?thesis by (simp add: e l1 ls n)
  qed
qed

subsection \<open>The partition and the references of the items\<close>

lemma wf_partition_ok:
  assumes w: "wf {0..<N} st"
  shows "partition_ok N (deref st (clustering st))"
proof -
  let ?cl = "clustering st"
  have nth: "\<And>j. j < length ?cl \<Longrightarrow> deref st ?cl ! j = store st ! (?cl ! j)"
    by (simp add: deref_def)
  have a: "c \<noteq> {}" if "c \<in> set (deref st ?cl)" for c
  proof -
    from that obtain a where "a \<in> set ?cl" "c = store st ! a" by (auto simp: deref_def)
    with wf_cluster[OF w] show ?thesis by simp
  qed
  have b: "deref st ?cl ! j \<inter> deref st ?cl ! k = {}"
    if "j < length ?cl" "k < length ?cl" "j \<noteq> k" for j k
  proof -
    from that wf_distinct[OF w] have ne: "?cl ! j \<noteq> ?cl ! k" by (simp add: nth_eq_iff_index_eq)
    have mj: "?cl ! j \<in> set ?cl" and mk: "?cl ! k \<in> set ?cl" using that by simp_all
    have "x \<notin> store st ! (?cl ! k)" if x: "x \<in> store st ! (?cl ! j)" for x
    proof
      assume "x \<in> store st ! (?cl ! k)"
      from wf_member[OF w mk this] wf_member[OF w mj x] ne show False by simp
    qed
    then show ?thesis using that by (auto simp: nth)
  qed
  have c: "\<Union>(set (deref st ?cl)) = {0..<N}"
  proof (intro set_eqI iffI)
    fix x assume "x \<in> \<Union>(set (deref st ?cl))"
    then obtain a where "a \<in> set ?cl" "x \<in> store st ! a" by (auto simp: deref_def)
    from wf_member[OF w this] show "x \<in> {0..<N}" by simp
  next
    fix x assume "x \<in> {0..<N}"
    from wf_item[OF w this] show "x \<in> \<Union>(set (deref st ?cl))" by (auto simp: deref_def)
  qed
  show ?thesis unfolding partition_ok_def using a b c by (simp add: deref_def)
qed


lemma init_prefix_wf:
  assumes "for_each (init_step m rs data) [0..<k] (g, empty_state) = Inr (g', st)"
  shows "wf {0..<k} st \<and> length (cluster_assn st) = k"
proof -
  let ?P = "\<lambda>i gs. wf {0..<i} (snd gs) \<and> length (cluster_assn (snd gs)) = i"
  have "?P k (g', st)"
  proof (rule for_each_upt_invariant[where P = ?P and n = k and f = "init_step m rs data",
        OF _ _ assms])
    show "?P 0 (g, empty_state)" using wf_empty by (simp add: empty_state_def)
    show "?P (Suc i) s'" if "i < k" "?P i s" "init_step m rs data i s = Inr s'" for i s s'
      using init_step_wf[of i "snd s" m rs data "fst s" "fst s'" "snd s'"] that by simp
  qed simp
  then show ?thesis by simp
qed

lemma sweep_prefix_wf:
  assumes w: "wf {0..<N} st" and l: "length (cluster_assn st) = N" and k: "k \<le> N"
    and run: "for_each (sweep_step m rs data) [0..<k] (g :: 'g, st, n) = Inr (g', st', n')"
  shows "wf {0..<N} st' \<and> length (cluster_assn st') = N"
proof -
  let ?P = "\<lambda>i::nat. \<lambda>s :: 'g \<times> pstate \<times> real.
     wf {0..<N} (fst (snd s)) \<and> length (cluster_assn (fst (snd s))) = N"
  have "?P k (g', st', n')"
  proof (rule for_each_upt_invariant[where P = ?P and n = N and f = "sweep_step m rs data",
        OF _ _ run k])
    show "?P 0 (g, st, n)" using w l by simp
    show "?P (Suc i) s'" if "i < N" "?P i s" "sweep_step m rs data i s = Inr s'" for i s s'
      using sweep_step_wf[of N "fst (snd s)" i m rs data "fst s" "snd (snd s)"
          "fst s'" "fst (snd s')" "snd (snd s')"] that by simp
  qed
  then show ?thesis by simp
qed

lemma gibbs_iteration_wf:
  assumes w: "wf {0..<length data} st" and l: "length (cluster_assn st) = length data"
    and run: "gibbs_iteration rs data t (m, g, st) = Inr (m', g', st')"
  shows "wf {0..<length data} st' \<and> length (cluster_assn st') = length data"
proof -
  from run obtain n where
    "for_each (sweep_step m rs data) [0..<length data] (g, st, 0) = Inr (g', st', n)"
    by (auto simp: gibbs_iteration_def split: sum.splits prod.splits)
  from sweep_prefix_wf[OF w l _ this] show ?thesis by simp
qed

lemma for_each_invariant:
  assumes step: "\<And>x s s'. P s \<Longrightarrow> f x s = Inr s' \<Longrightarrow> P s'"
    and init: "P s0" and run: "for_each f xs s0 = Inr s'"
  shows "P s'"
  using init run
proof (induction xs arbitrary: s0)
  case Nil
  then show ?case by simp
next
  case (Cons x xs)
  from Cons.prems(2) obtain s1 where a: "f x s0 = Inr s1" and b: "for_each f xs s1 = Inr s'"
    by (auto split: sum.splits)
  from step[OF Cons.prems(1) a] have "P s1" .
  from Cons.IH[OF this b] show ?case .
qed

lemma fit_upto_wf:
  assumes "fit_upto rs (data :: 'd list) T m (g :: 'g) = Inr (m', g', st)"
  shows "wf {0..<length data} st \<and> length (cluster_assn st) = length data"
proof -
  from assms obtain g1 st1 where i: "initialize_assn m rs data g = Inr (g1, st1)"
    and r: "for_each (gibbs_iteration rs data) [0..<T] (m, g1, st1) = Inr (m', g', st)"
    by (auto simp: fit_upto_def split: sum.splits prod.splits)
  let ?P = "\<lambda>s :: 'd crp_model \<times> 'g \<times> pstate.
     wf {0..<length data} (snd (snd s)) \<and> length (cluster_assn (snd (snd s))) = length data"
  have "?P (m', g', st)"
  proof (rule for_each_invariant[where P = ?P and f = "gibbs_iteration rs data", OF _ _ r])
    show "?P (m, g1, st1)"
      using init_prefix_wf[of m rs data "length data" g g1 st1] i
      by (simp add: initialize_assn_def)
    show "?P s'" if "?P s" "gibbs_iteration rs data x s = Inr s'" for x s s'
      using gibbs_iteration_wf[of data "snd (snd s)" rs x "fst s" "fst (snd s)"
          "fst s'" "fst (snd s')" "snd (snd s')"] that by simp
  qed
  then show ?thesis by simp
qed

text \<open>
  Claim C2. After the initialisation and after every completed sweep (\<open>T\<close> is the number
  of sweeps done so far, \<open>T = 0\<close> being the state that \<open>initialize_assn\<close> returns), the
  clusters are non-empty, pairwise disjoint, and their union is \<open>{0, \<dots>, N - 1}\<close>.
\<close>

theorem partition_invariant:
  "fit_upto rs data T m g = Inr (m', g', st) \<Longrightarrow>
     partition_ok (length data) (deref st (clustering st))"
proof -
  assume "fit_upto rs data T m g = Inr (m', g', st)"
  from fit_upto_wf[OF this] have "wf {0..<length data} st" by simp
  then show ?thesis by (rule wf_partition_ok)
qed



subsection \<open>A dataset of one item\<close>

lemma one_ok_output:
  assumes "one_ok st"
  shows "fit_output (Inr (m, g, st)) = Inr ([{0}], [{0}])"
proof -
  from assms obtain a where "clustering st = [a]" "cluster_assn st = [a]" "store st ! a = {0}"
    unfolding one_ok_def by blast
  then show ?thesis by (simp add: fit_output_def deref_def)
qed

lemma one_init:
  assumes n: "length data = 1" and a: "alpha m \<noteq> 0"
    and H: "\<And>g ca. \<exists>g'. draw_cluster rs g [1] (likelihood_fn m data 0 [] ca) = Inr (0, g')"
  shows "\<exists>g' st. initialize_assn m rs data g = Inr (g', st) \<and> one_ok st"
proof -
  from H[of g "[]"] obtain g' where d: "draw_cluster rs g [1] (likelihood_fn m data 0 [] []) = Inr (0, g')"
    by blast
  have "initialize_assn m rs data g =
          Inr (g', \<lparr>store = [{0}], clustering = [0], cluster_assn = [0]\<rparr>)"
    using n a d
    by (simp add: initialize_assn_def init_step_def init_prior_def crp_prior_float deref_def
        empty_state_def)
  then show ?thesis by (simp add: one_ok_def)
qed

lemma one_sweep:
  assumes n: "length data = 1" and a: "alpha m \<noteq> 0" and ok: "one_ok st"
    and H: "\<And>g ca. \<exists>g'. draw_cluster rs g [1] (likelihood_fn m data 0 [] ca) = Inr (0, g')"
  shows "\<exists>g' st'. for_each (sweep_step m rs data) [0..<length data] (g, st, 0) = Inr (g', st', 1) \<and>
           one_ok st'"
proof -
  from ok obtain b where b: "clustering st = [b]" "cluster_assn st = [b]" "b < length (store st)"
    "store st ! b = {0}" unfolding one_ok_def by blast
  let ?st1 = "st\<lparr>store := (store st)[b := {}], clustering := []\<rparr>"
  have d: "detach 0 st = Inr ?st1"
    using b by (simp add: detach_def)
  have p: "sweep_prior m data ?st1 = Inr [1]"
    using n a by (simp add: sweep_prior_def crp_prior_float deref_def)
  from H[of g "deref ?st1 (cluster_assn ?st1)"] obtain g' where
    dr: "draw_cluster rs g [1] (likelihood_fn m data 0 [] (deref ?st1 (cluster_assn ?st1))) = Inr (0, g')"
    by blast
  have "deref ?st1 (clustering ?st1) = []" by (simp add: deref_def)
  with d p dr have "sweep_step m rs data 0 (g, st, 0) =
      Inr (g', ?st1\<lparr>store := store ?st1 @ [{0}], clustering := [length (store ?st1)],
                     cluster_assn := (cluster_assn ?st1)[0 := length (store ?st1)]\<rparr>, 1)"
    by (simp add: sweep_step_def Let_def)
  then show ?thesis using n b by (simp add: one_ok_def nth_append)
qed

lemma one_iteration:
  assumes n: "length data = 1" and a: "alpha m \<noteq> 0" and e: "eb_interval m \<noteq> 0" and ok: "one_ok st"
    and H: "\<And>g ca. \<exists>g'. draw_cluster rs g [1] (likelihood_fn m data 0 [] ca) = Inr (0, g')"
  shows "\<exists>m' g' st'. gibbs_iteration rs data t (m, g, st) = Inr (m', g', st') \<and> one_ok st' \<and>
           alpha m' \<noteq> 0 \<and> eb_interval m' = eb_interval m \<and> likelihood_fn m' = likelihood_fn m"
proof -
  from one_sweep[where g = g, OF n a ok H] obtain g' st' where
    s: "for_each (sweep_step m rs data) [0..<length data] (g, st, 0) = Inr (g', st', 1)"
    and ok': "one_ok st'" by blast
  show ?thesis
  proof (cases "int t mod eb_interval m = 0 \<and> int t > eb_start m")
    case True
    with s e have "gibbs_iteration rs data t (m, g, st) = Inr (m\<lparr>alpha := 1\<rparr>, g', st')"
      by (simp add: gibbs_iteration_def empirical_bayes_def)
    with ok' show ?thesis by simp
  next
    case False
    then have "empirical_bayes m t 1 = Inr m"
      using e by (auto simp: empirical_bayes_def)
    with s have "gibbs_iteration rs data t (m, g, st) = Inr (m, g', st')"
      by (simp add: gibbs_iteration_def)
    with ok' a show ?thesis by simp
  qed
qed

lemma one_loop:
  assumes n: "length data = 1" and e: "eb_interval m \<noteq> 0"
    and H: "\<And>g ca. \<exists>g'. draw_cluster rs g [1] (likelihood_fn m data 0 [] ca) = Inr (0, g')"
  shows "alpha m \<noteq> 0 \<Longrightarrow> one_ok st \<Longrightarrow>
     \<exists>m' g' st'. for_each (gibbs_iteration rs data) ts (m, g, st) = Inr (m', g', st') \<and> one_ok st'"
  using e H
proof (induction ts arbitrary: m g st)
  case Nil
  then show ?case by simp
next
  case (Cons t ts)
  from one_iteration[where g = g and t = t, OF n Cons.prems(1) Cons.prems(3) Cons.prems(2) Cons.prems(4)]
  obtain m1 g1 st1 where it: "gibbs_iteration rs data t (m, g, st) = Inr (m1, g1, st1)"
    and ok1: "one_ok st1" and a1: "alpha m1 \<noteq> 0" and e1: "eb_interval m1 = eb_interval m"
    and l1: "likelihood_fn m1 = likelihood_fn m" by blast
  have e1': "eb_interval m1 \<noteq> 0" using e1 Cons.prems(3) by simp
  have H1: "\<And>g ca. \<exists>g'. draw_cluster rs g [1] (likelihood_fn m1 data 0 [] ca) = Inr (0, g')"
    using Cons.prems(4) l1 by simp
  from Cons.IH[where g = g1, OF a1 ok1 e1' H1] it show ?case by simp
qed

lemma one_item_fit:
  assumes n: "length data = 1" and a: "alpha m \<noteq> 0" and e: "eb_interval m \<noteq> 0"
    and H: "\<And>g ca. \<exists>g'. draw_cluster rs g [1] (likelihood_fn m data 0 [] ca) = Inr (0, g')"
  shows "\<exists>m' g' st'. fit rs data m g = Inr (m', g', st') \<and> one_ok st'"
proof -
  from one_init[where g = g, OF n a H] obtain g1 st1 where
    i: "initialize_assn m rs data g = Inr (g1, st1)" and ok: "one_ok st1" by blast
  from one_loop[where g = g1 and ts = "[0..<nat (num_iter m)]", OF n e H a ok] i
  show ?thesis by (simp add: fit_def fit_upto_def)
qed

lemma draw_single:
  assumes "l \<noteq> 0" and "fst (rs g) < 1"
  shows "draw_cluster rs g [1] [l] = Inr (0, snd (rs g))"
  using assms
  by (cases "rs g")
    (simp add: draw_cluster_def np_multiply_def np_normalize_def np_random_choice_def atol_def)

lemma draw_first:
  assumes "fst (rs g) < 1"
  shows "draw_cluster rs g [1] [1, 0] = Inr (0, snd (rs g))"
  using assms
  by (cases "rs g")
    (simp add: draw_cluster_def np_multiply_def np_normalize_def np_random_choice_def atol_def)

subsection \<open>Sweeps that leave the state as it is\<close>

lemma stationary_loop:
  fixes m :: "'d crp_model" and g :: 'g
  assumes e: "eb_interval m \<noteq> 0"
    and fp: "\<And>a. a = alpha m \<or> a = 0 \<Longrightarrow>
        for_each (sweep_step (m\<lparr>alpha := a\<rparr>) rs data) [0..<length data] (g, st, 0) = Inr (g, st, 0)"
  shows "for_each (gibbs_iteration rs data) ts (m, g, st) =
           Inr (m\<lparr>alpha := (if list_ex (eb_fires m) ts then 0 else alpha m)\<rparr>, g, st)"
  using e fp
proof (induction ts arbitrary: m)
  case Nil
  then show ?case by simp
next
  case (Cons t ts)
  have s: "for_each (sweep_step m rs data) [0..<length data] (g, st, 0) = Inr (g, st, 0)"
    using Cons.prems(2)[of "alpha m"] by simp
  show ?case
  proof (cases "eb_fires m t")
    case True
    let ?m = "m\<lparr>alpha := 0\<rparr>"
    from True s Cons.prems(1) have it: "gibbs_iteration rs data t (m, g, st) = Inr (?m, g, st)"
      by (simp add: gibbs_iteration_def empirical_bayes_def eb_fires_def)
    have e': "eb_interval ?m \<noteq> 0" using Cons.prems(1) by simp
    have fp': "\<And>a. a = alpha ?m \<or> a = 0 \<Longrightarrow>
        for_each (sweep_step (?m\<lparr>alpha := a\<rparr>) rs data) [0..<length data] (g, st, 0) = Inr (g, st, 0)"
      using Cons.prems(2)[of 0] by simp
    from Cons.IH[OF e' fp'] it True show ?thesis by simp
  next
    case False
    then have "empirical_bayes m t 0 = Inr m"
      using Cons.prems(1) by (auto simp: empirical_bayes_def eb_fires_def)
    with s have it: "gibbs_iteration rs data t (m, g, st) = Inr (m, g, st)"
      by (simp add: gibbs_iteration_def)
    have "list_ex (eb_fires m) (t # ts) = list_ex (eb_fires m) ts" using False by simp
    with Cons.IH[OF Cons.prems(1) Cons.prems(2)] it show ?thesis by simp
  qed
qed

lemma empty_fit:
  fixes m :: "'d crp_model" and g :: 'g
  assumes e: "eb_interval m \<noteq> 0"
  shows "fit rs [] m g =
           Inr (m\<lparr>alpha := (if list_ex (eb_fires m) [0..<nat (num_iter m)] then 0 else alpha m)\<rparr>,
                g, empty_state)"
proof -
  have "for_each (gibbs_iteration rs ([] :: 'd list)) [0..<nat (num_iter m)] (m, g, empty_state) =
      Inr (m\<lparr>alpha := (if list_ex (eb_fires m) [0..<nat (num_iter m)] then 0 else alpha m)\<rparr>,
           g, empty_state)"
    by (rule stationary_loop[OF e]) simp
  then show ?thesis by (simp add: fit_def fit_upto_def initialize_assn_def)
qed

subsection \<open>The prior and the Empirical Bayes schedule\<close>

lemma crp_prior_shape:
  assumes "real_of_int n + x \<noteq> 0"
  shows "\<exists>v. crp_prior n (PyFloat x) (deref st cl) = Inr v \<and> length v = length cl + 1 \<and>
           (\<forall>j<length cl. v ! j = real (card (store st ! (cl ! j))) / (real_of_int n + x)) \<and>
           v ! length cl = x / (real_of_int n + x)"
proof -
  let ?d = "real_of_int n + x"
  let ?v = "map (\<lambda>c. real (card c) / ?d) (deref st cl) @ [x / ?d]"
  have l: "length (deref st cl) = length cl" by (simp add: deref_def)
  have "crp_prior n (PyFloat x) (deref st cl) = Inr ?v" using assms by (simp add: crp_prior_float)
  moreover have "length ?v = length cl + 1" by (simp add: l)
  moreover have "\<forall>j<length cl. ?v ! j = real (card (store st ! (cl ! j))) / ?d"
    by (simp add: nth_append l) (simp add: deref_def)
  moreover have "?v ! length cl = x / ?d"
    using nth_append_length[of "map (\<lambda>c. real (card c) / ?d) (deref st cl)" "x / ?d" "[]"]
    by (simp add: l)
  ultimately show ?thesis by blast
qed

text \<open>
  On the float \<open>alpha\<close> of a sampler object the prior is the vector of the specification:
  \<open>k + 1\<close> entries, the size of cluster \<open>j\<close> over \<open>n + alpha\<close> at \<open>j\<close> and \<open>alpha\<close> over
  \<open>n + alpha\<close> at the end, with \<open>n = i\<close> in the initialisation and \<open>n = N - 1\<close> in a sweep.
\<close>

lemma prior_float_alpha:
  "(real i + alpha m \<noteq> 0 \<longrightarrow>
      (\<exists>v. init_prior m i st = Inr v \<and> length v = length (clustering st) + 1 \<and>
         (\<forall>j<length (clustering st).
            v ! j = real (card (store st ! (clustering st ! j))) / (real i + alpha m)) \<and>
         v ! length (clustering st) = alpha m / (real i + alpha m))) \<and>
   (real (length data) - 1 + alpha m \<noteq> 0 \<longrightarrow>
      (\<exists>v. sweep_prior m data st = Inr v \<and> length v = length (clustering st) + 1 \<and>
         (\<forall>j<length (clustering st).
            v ! j = real (card (store st ! (clustering st ! j))) / (real (length data) - 1 + alpha m)) \<and>
         v ! length (clustering st) = alpha m / (real (length data) - 1 + alpha m)))"
proof (intro conjI impI)
  assume "real i + alpha m \<noteq> 0"
  then have "real_of_int (int i) + alpha m \<noteq> 0" by simp
  from crp_prior_shape[OF this, of st "clustering st"]
  show "\<exists>v. init_prior m i st = Inr v \<and> length v = length (clustering st) + 1 \<and>
         (\<forall>j<length (clustering st).
            v ! j = real (card (store st ! (clustering st ! j))) / (real i + alpha m)) \<and>
         v ! length (clustering st) = alpha m / (real i + alpha m)"
    by (simp add: init_prior_def)
next
  assume "real (length data) - 1 + alpha m \<noteq> 0"
  then have "real_of_int (int (length data) - 1) + alpha m \<noteq> 0" by simp
  from crp_prior_shape[OF this, of st "clustering st"]
  show "\<exists>v. sweep_prior m data st = Inr v \<and> length v = length (clustering st) + 1 \<and>
         (\<forall>j<length (clustering st).
            v ! j = real (card (store st ! (clustering st ! j))) / (real (length data) - 1 + alpha m)) \<and>
         v ! length (clustering st) = alpha m / (real (length data) - 1 + alpha m)"
    by (simp add: sweep_prior_def)
qed

text \<open>
  On a positive int \<open>alpha\<close> and a positive \<open>n\<close> the last entry of the prior is zero.
\<close>

lemma prior_int_alpha_zero:
  assumes "0 < k" and "0 < n"
  shows "crp_prior n (PyInt k) cs =
           Inr (map (\<lambda>c. real (card c) / real_of_int (n + k)) cs @ [0])"
proof -
  from assms have "k div (n + k) = 0" by (simp add: div_pos_pos_trivial)
  with assms show ?thesis by (simp add: crp_prior_def)
qed

text \<open>
  Claim C1. The claim has \<open>alpha / (n + alpha)\<close> as the last entry of the prior. The code
  computes the entries of the clusters with a float numerator (\<open>len(x) + 0.0\<close>) and the
  last entry as \<open>self.alpha / (n + self.alpha)\<close>, which Python 2 floor-divides when
  \<open>alpha\<close> is an int. With \<open>alpha = 1\<close>: item \<open>1\<close> of the initialisation, with item \<open>0\<close> in
  the one cluster, gets the prior \<open>[1/2, 0]\<close>, and so does item \<open>0\<close> in a sweep over two
  items once it is removed from its singleton cluster; the claim, and the code on the
  float \<open>1.0\<close>, have \<open>[1/2, 1/2]\<close>.
\<close>

theorem prior_int_alpha:
  "crp_prior (int 1) (PyInt 1)
     (deref \<lparr>store = [{0}], clustering = [0], cluster_assn = [0]\<rparr> [0]) = Inr [1 / 2, 0] \<and>
   crp_prior (int 1) (PyFloat 1)
     (deref \<lparr>store = [{0}], clustering = [0], cluster_assn = [0]\<rparr> [0]) = Inr [1 / 2, 1 / 2] \<and>
   detach 0 \<lparr>store = [{0}, {1}], clustering = [0, 1], cluster_assn = [0, 1]\<rparr> =
     Inr \<lparr>store = [{}, {1}], clustering = [1], cluster_assn = [0, 1]\<rparr> \<and>
   crp_prior (int (length [0 :: real, 1]) - 1) (PyInt 1)
     (deref \<lparr>store = [{}, {1}], clustering = [1], cluster_assn = [0, 1]\<rparr> [1]) = Inr [1 / 2, 0] \<and>
   crp_prior (int (length [0 :: real, 1]) - 1) (PyFloat 1)
     (deref \<lparr>store = [{}, {1}], clustering = [1], cluster_assn = [0, 1]\<rparr> [1]) = Inr [1 / 2, 1 / 2]"
  by (simp add: crp_prior_def deref_def detach_def)





subsection \<open>Runs on concrete inputs\<close>

lemmas run_defs = fit_def fit_upto_def initialize_assn_def init_step_def init_prior_def crp_prior_float
  deref_def draw_cluster_def np_multiply_def np_normalize_def np_random_choice_def atol_def
  gibbs_iteration_def sweep_step_def sweep_prior_def detach_def empirical_bayes_def
  empty_state_def Let_def upt_rec_numeral

lemma run_two_items:
  "fit_upto (const_source (1 / 2)) [0 :: real, 1] 1 (demo_model 1 uniform_likelihood) () =
     Inr (demo_model 1 uniform_likelihood, (),
          \<lparr>store = [{}, {}, {0}, {1}], clustering = [2, 3], cluster_assn = [2, 3]\<rparr>)"
  by (simp add: run_defs demo_model_def uniform_likelihood_def const_source_def two_singletons_def)

theorem partition_invariant_witness:
  "fit_upto (const_source (1 / 2)) [0 :: real, 1] 1 (demo_model 1 uniform_likelihood) () =
     Inr (demo_model 1 uniform_likelihood, (),
          \<lparr>store = [{}, {}, {0}, {1}], clustering = [2, 3], cluster_assn = [2, 3]\<rparr>) \<and>
   partition_ok (length [0 :: real, 1]) [{0}, {1}]"
  using partition_invariant[OF run_two_items] run_two_items by (simp add: deref_def)








subsection \<open>A combined vector of one entry\<close>




lemma one_item_output:
  assumes n: "length data = 1" and a: "alpha m \<noteq> 0" and e: "eb_interval m \<noteq> 0"
    and H: "\<And>g ca. \<exists>g'. draw_cluster rs g [1] (likelihood_fn m data 0 [] ca) = Inr (0, g')"
  shows "fit_output (fit rs data m g) = Inr ([{0}], [{0}])"
proof -
  from one_item_fit[where g = g, OF n a e H] obtain m' g' st' where
    "fit rs data m g = Inr (m', g', st')" "one_ok st'" by blast
  then show ?thesis by (simp add: one_ok_output)
qed



subsection \<open>Likelihood vectors of another length\<close>

lemma np_multiply_broadcast:
  "length lik \<noteq> length prior \<Longrightarrow>
     np_multiply prior lik = Inl ValueError_broadcast \<longleftrightarrow> length lik \<noteq> 1 \<and> length prior \<noteq> 1"
  by (auto simp: np_multiply_def)

lemma np_multiply_error: "np_multiply prior lik = Inl e \<Longrightarrow> e = ValueError_broadcast"
  by (auto simp: np_multiply_def split: if_splits)

lemma np_random_choice_error: "np_random_choice rs g p = Inl e \<Longrightarrow> e = ValueError_choice"
  by (auto simp: np_random_choice_def Let_def split: option.splits if_splits prod.splits)

lemma draw_cluster_broadcast:
  "draw_cluster rs g prior lik = Inl ValueError_broadcast \<longleftrightarrow>
     np_multiply prior lik = Inl ValueError_broadcast"
  by (auto simp: draw_cluster_def split: sum.splits dest: np_random_choice_error np_multiply_error)

lemma init_step_broadcast:
  assumes "init_prior m i st = Inr prior"
  shows "init_step m rs data i (g, st) = Inl ValueError_broadcast \<longleftrightarrow>
     np_multiply prior
       (likelihood_fn m data i (deref st (clustering st)) (deref st (cluster_assn st))) =
     Inl ValueError_broadcast"
  unfolding draw_cluster_broadcast[symmetric, where rs = rs and g = g]
  using assms by (auto simp: init_step_def Let_def split: sum.splits prod.splits)

lemma sweep_step_broadcast:
  assumes "detach j st0 = Inr st1" and "sweep_prior m data st1 = Inr prior"
  shows "sweep_step m rs data j (g, st0, n) = Inl ValueError_broadcast \<longleftrightarrow>
     np_multiply prior
       (likelihood_fn m data j (deref st1 (clustering st1)) (deref st1 (cluster_assn st1))) =
     Inl ValueError_broadcast"
  unfolding draw_cluster_broadcast[symmetric, where rs = rs and g = g]
  using assms by (auto simp: sweep_step_def Let_def split: sum.splits prod.splits)

text \<open>
  Claim C9, as amended. The code never compares the length of the likelihood vector with
  the number of clusters. When the length differs from \<open>k + 1\<close>, the product of the two
  arrays raises a ValueError, and the run aborts, exactly when the length is not one and
  there is at least one cluster; a vector of length one, and any vector when there is no
  cluster yet, is stretched by numpy and the step goes on.
\<close>

theorem likelihood_length_mismatch:
  "(init_prior m i st = Inr prior \<longrightarrow>
    length (likelihood_fn m data i (deref st (clustering st)) (deref st (cluster_assn st)))
      \<noteq> length (clustering st) + 1 \<longrightarrow>
      (init_step m rs data i (g, st) = Inl ValueError_broadcast \<longleftrightarrow>
       length (likelihood_fn m data i (deref st (clustering st)) (deref st (cluster_assn st))) \<noteq> 1 \<and>
       clustering st \<noteq> [])) \<and>
   (detach j st0 = Inr st1 \<longrightarrow> sweep_prior m data st1 = Inr prior1 \<longrightarrow>
    length (likelihood_fn m data j (deref st1 (clustering st1)) (deref st1 (cluster_assn st1)))
      \<noteq> length (clustering st1) + 1 \<longrightarrow>
      (sweep_step m rs data j (g, st0, n) = Inl ValueError_broadcast \<longleftrightarrow>
       length (likelihood_fn m data j (deref st1 (clustering st1)) (deref st1 (cluster_assn st1))) \<noteq> 1 \<and>
       clustering st1 \<noteq> []))"
proof (intro conjI impI)
  let ?L = "likelihood_fn m data i (deref st (clustering st)) (deref st (cluster_assn st))"
  assume p: "init_prior m i st = Inr prior" and l: "length ?L \<noteq> length (clustering st) + 1"
  from p have lp: "length prior = length (clustering st) + 1"
    by (simp add: init_prior_def deref_def crp_prior_length)
  from l lp have "length ?L \<noteq> length prior" by simp
  from np_multiply_broadcast[OF this] lp
  show "init_step m rs data i (g, st) = Inl ValueError_broadcast \<longleftrightarrow>
       length ?L \<noteq> 1 \<and> clustering st \<noteq> []"
    unfolding init_step_broadcast[OF p] by simp
next
  let ?L = "likelihood_fn m data j (deref st1 (clustering st1)) (deref st1 (cluster_assn st1))"
  assume d: "detach j st0 = Inr st1" and p: "sweep_prior m data st1 = Inr prior1"
    and l: "length ?L \<noteq> length (clustering st1) + 1"
  from p have lp: "length prior1 = length (clustering st1) + 1"
    by (simp add: sweep_prior_def deref_def crp_prior_length)
  from l lp have "length ?L \<noteq> length prior1" by simp
  from np_multiply_broadcast[OF this] lp
  show "sweep_step m rs data j (g, st0, n) = Inl ValueError_broadcast \<longleftrightarrow>
       length ?L \<noteq> 1 \<and> clustering st1 \<noteq> []"
    unfolding sweep_step_broadcast[OF d p] by simp
qed

text \<open>
  A provider that returns two values while there is no cluster, on a dataset of one item:
  the length is \<open>2\<close>, not \<open>0 + 1\<close>, and the run returns the clustering \<open>[{0}]\<close>.
\<close>

theorem likelihood_length_mismatch_counterexample:
  "length (likelihood_fn (demo_model 1 (const_likelihood [1, 0])) [0 :: real] 0
            (deref empty_state (clustering empty_state))
            (deref empty_state (cluster_assn empty_state))) = 2 \<and>
   length (clustering empty_state) + 1 = 1 \<and>
   fit_output (fit (const_source (1 / 2)) [0 :: real] (demo_model 1 (const_likelihood [1, 0])) ()) =
     Inr ([{0}], [{0}])"
proof (intro conjI)
  show "fit_output (fit (const_source (1 / 2)) [0 :: real]
          (demo_model 1 (const_likelihood [1, 0])) ()) = Inr ([{0}], [{0}])"
  proof (rule one_item_output)
    show "\<exists>g'. draw_cluster (const_source (1 / 2)) g [1]
            (likelihood_fn (demo_model 1 (const_likelihood [1, 0])) [0 :: real] 0 [] ca) = Inr (0, g')"
      for g ca
      using draw_first[of "const_source (1 / 2)" g]
      by (simp add: demo_model_def const_likelihood_def const_source_def)
  qed (simp_all add: demo_model_def)
qed (simp_all add: demo_model_def const_likelihood_def empty_state_def)

theorem likelihood_length_mismatch_witness:
  "init_prior (demo_model 1 (const_likelihood [1, 1, 1]) :: real crp_model) 1
     \<lparr>store = [{0}], clustering = [0], cluster_assn = [0]\<rparr> = Inr [1 / 2, 1 / 2] \<and>
   init_step (demo_model 1 (const_likelihood [1, 1, 1])) (const_source (1 / 2)) [0 :: real, 1] 1
     ((), \<lparr>store = [{0}], clustering = [0], cluster_assn = [0]\<rparr>) = Inl ValueError_broadcast \<and>
   detach 0 \<lparr>store = [{0}, {1}], clustering = [0, 1], cluster_assn = [0, 1]\<rparr> =
     Inr \<lparr>store = [{}, {1}], clustering = [1], cluster_assn = [0, 1]\<rparr> \<and>
   sweep_prior (demo_model 1 (const_likelihood [1, 1, 1])) [0 :: real, 1]
     \<lparr>store = [{}, {1}], clustering = [1], cluster_assn = [0, 1]\<rparr> = Inr [1 / 2, 1 / 2] \<and>
   sweep_step (demo_model 1 (const_likelihood [1, 1, 1])) (const_source (1 / 2)) [0 :: real, 1] 0
     ((), \<lparr>store = [{0}, {1}], clustering = [0, 1], cluster_assn = [0, 1]\<rparr>, 0) =
     Inl ValueError_broadcast"
proof -
  let ?m = "demo_model 1 (const_likelihood [1, 1, 1]) :: real crp_model"
  have a: "init_prior ?m 1 \<lparr>store = [{0}], clustering = [0], cluster_assn = [0]\<rparr> =
      Inr [1 / 2, 1 / 2]"
    by (simp add: run_defs demo_model_def)
  have b: "detach 0 \<lparr>store = [{0}, {1}], clustering = [0, 1], cluster_assn = [0, 1]\<rparr> =
     Inr \<lparr>store = [{}, {1}], clustering = [1], cluster_assn = [0, 1]\<rparr>"
    by (simp add: detach_def)
  have c: "sweep_prior ?m [0 :: real, 1]
     \<lparr>store = [{}, {1}], clustering = [1], cluster_assn = [0, 1]\<rparr> = Inr [1 / 2, 1 / 2]"
    by (simp add: run_defs demo_model_def)
  from likelihood_length_mismatch[where m = ?m and i = 1
      and st = "\<lparr>store = [{0}], clustering = [0], cluster_assn = [0]\<rparr>"
      and prior = "[1 / 2, 1 / 2]" and data = "[0 :: real, 1]" and rs = "const_source (1 / 2)"
      and g = "()" and j = 0
      and ?st0.0 = "\<lparr>store = [{0}, {1}], clustering = [0, 1], cluster_assn = [0, 1]\<rparr>"
      and ?st1.0 = "\<lparr>store = [{}, {1}], clustering = [1], cluster_assn = [0, 1]\<rparr>"
      and ?prior1.0 = "[1 / 2, 1 / 2]" and n = 0] a b c
  show ?thesis by (simp add: const_likelihood_def demo_model_def)
qed

subsection \<open>Construction, one item, no item\<close>

lemma zero_alpha_fit:
  assumes "alpha m = 0" and "data \<noteq> []"
  shows "fit rs data m g = Inl ZeroDivisionError"
proof -
  from assms(2) have "[0..<length data] = 0 # [Suc 0..<length data]"
    by (simp add: upt_conv_Cons)
  moreover have "init_step m rs data 0 (g, empty_state) = Inl ZeroDivisionError"
    using assms(1) by (simp add: init_step_def init_prior_def crp_prior_float)
  ultimately show ?thesis
    by (simp add: fit_def fit_upto_def initialize_assn_def)
qed

text \<open>
  Claim C8, as amended. \<open>__init__\<close> takes \<open>alpha\<close> and the likelihood function only, stores
  both as they are and sets \<open>num_iter = 100\<close>, \<open>eb_start = 20\<close>, \<open>eb_interval = 5\<close>; it never
  raises. A zero \<open>alpha\<close> is met only when \<open>fit\<close> divides by it: on a non-empty dataset the
  first step of the initialisation raises ZeroDivisionError.
\<close>

theorem constructor_accepts:
  "\<exists>m. CRPClusterModel a lf = Inr m \<and> alpha m = a \<and> likelihood_fn m = lf \<and>
        num_iter m = 100 \<and> eb_start m = 20 \<and> eb_interval m = 5 \<and>
        (a = 0 \<longrightarrow> data \<noteq> [] \<longrightarrow> fit rs data m g = Inl ZeroDivisionError)"
  by (simp add: CRPClusterModel_def zero_alpha_fit)

text \<open>A negative \<open>alpha\<close> is accepted and stored.\<close>

theorem constructor_accepts_counterexample:
  "CRPClusterModel (- 1) (uniform_likelihood :: real likelihood) =
     Inr \<lparr>alpha = - 1, likelihood_fn = uniform_likelihood, num_iter = 100, eb_start = 20,
          eb_interval = 5\<rparr>"
  by (simp add: CRPClusterModel_def)

theorem constructor_accepts_witness:
  "CRPClusterModel 0 (uniform_likelihood :: real likelihood) = Inr (demo_model 0 uniform_likelihood) \<and>
   [0 :: real] \<noteq> [] \<and>
   fit (const_source (1 / 2)) [0 :: real] (demo_model 0 uniform_likelihood) () = Inl ZeroDivisionError"
  using constructor_accepts[of 0 "uniform_likelihood :: real likelihood" "[0 :: real]"
      "const_source (1 / 2)" "()"]
  by (auto simp: CRPClusterModel_def demo_model_def)

text \<open>
  Claim C7, as amended. For a sampler object as \<open>__init__\<close> builds it with a non-zero
  \<open>alpha\<close>, a dataset of one item, a likelihood provider that returns one positive value
  when there is no cluster, and uniform samples below one, \<open>fit\<close> returns, its clustering
  is the one cluster \<open>{0}\<close>, and the entry of item \<open>0\<close> refers to that cluster.
\<close>

theorem single_item:
  assumes "CRPClusterModel a lf = Inr m" and "a \<noteq> 0" and "length data = 1"
    and "\<forall>g. fst (rs g) < 1" and "\<forall>ca. \<exists>l>0. lf data 0 [] ca = [l]"
  shows "fit_output (fit rs data m g) = Inr ([{0}], [{0}])"
proof (rule one_item_output)
  from assms(1) have m: "m = \<lparr>alpha = a, likelihood_fn = lf, num_iter = 100, eb_start = 20,
      eb_interval = 5\<rparr>" by (simp add: CRPClusterModel_def)
  show "length data = 1" by (rule assms(3))
  show "alpha m \<noteq> 0" using assms(2) m by simp
  show "eb_interval m \<noteq> 0" using m by simp
  show "\<exists>g'. draw_cluster rs g [1] (likelihood_fn m data 0 [] ca) = Inr (0, g')" for g ca
  proof -
    from assms(5) obtain l where l: "l > 0" "lf data 0 [] ca = [l]" by blast
    from assms(4) have "fst (rs g) < 1" by simp
    from draw_single[where l = l and rs = rs and g = g] this l m show ?thesis by simp
  qed
qed

text \<open>With \<open>alpha = 0\<close> the run on one item raises in its first step.\<close>

theorem single_item_counterexample:
  "CRPClusterModel 0 (const_likelihood [1]) =
     Inr (demo_model 0 (const_likelihood [1]) :: real crp_model) \<and>
   fit (const_source (1 / 2)) [0 :: real] (demo_model 0 (const_likelihood [1])) () =
     Inl ZeroDivisionError"
  by (simp add: CRPClusterModel_def demo_model_def zero_alpha_fit)

theorem single_item_witness:
  "CRPClusterModel 3 (const_likelihood [2]) =
     Inr (demo_model 3 (const_likelihood [2]) :: real crp_model) \<and>
   (3 :: real) \<noteq> 0 \<and> length [7 :: real] = 1 \<and>
   (\<forall>g. fst (const_source (1 / 2) g) < 1) \<and>
   (\<forall>ca. \<exists>l>0. const_likelihood [2] [7 :: real] 0 [] ca = [l]) \<and>
   fit_output (fit (const_source (1 / 2)) [7 :: real] (demo_model 3 (const_likelihood [2])) ()) =
     Inr ([{0}], [{0}])"
proof -
  have a: "CRPClusterModel 3 (const_likelihood [2]) =
      Inr (demo_model 3 (const_likelihood [2]) :: real crp_model)"
    by (simp add: CRPClusterModel_def demo_model_def)
  have b: "\<forall>g. fst (const_source (1 / 2) g) < 1" by (simp add: const_source_def)
  have c: "\<forall>ca. \<exists>l>0. const_likelihood [2] [7 :: real] 0 [] ca = [l]"
    by (simp add: const_likelihood_def)
  from single_item[OF a _ _ b c, of "()"] a b c show ?thesis by simp
qed

text \<open>
  Claim C10, as amended. On an empty dataset \<open>fit\<close> returns an empty clustering and an
  empty assignment list, whatever the likelihood provider and the random source are, and
  leaves the generator as it found it. Every sweep counts zero new clusters, so \<open>alpha\<close>
  is overwritten with \<open>0.0\<close> as soon as a sweep \<open>t\<close> below \<open>num_iter\<close> has
  \<open>t mod eb_interval = 0\<close> and \<open>t > eb_start\<close>; it keeps its value only when there is no
  such sweep.
\<close>

theorem empty_dataset:
  assumes "eb_interval m \<noteq> 0"
  shows "fit rs [] m g =
     Inr (m\<lparr>alpha := (if \<exists>t<nat (num_iter m). int t mod eb_interval m = 0 \<and> eb_start m < int t
                       then 0 else alpha m)\<rparr>,
          g, \<lparr>store = [], clustering = [], cluster_assn = []\<rparr>)"
proof -
  have "list_ex P [0..<k] \<longleftrightarrow> (\<exists>t<k. P t)" for P :: "nat \<Rightarrow> bool" and k
    by (auto simp: list_ex_iff)
  then have "list_ex (eb_fires m) [0..<nat (num_iter m)] \<longleftrightarrow>
      (\<exists>t<nat (num_iter m). int t mod eb_interval m = 0 \<and> eb_start m < int t)"
    unfolding eb_fires_def .
  with empty_fit[OF assms, of rs g] show ?thesis by (simp add: empty_state_def)
qed

text \<open>
  With the parameters that \<open>__init__\<close> sets and \<open>alpha = 1\<close>, the run on an empty dataset
  ends with \<open>alpha = 0\<close>: sweep \<open>25\<close> overwrites it.
\<close>

theorem empty_dataset_counterexample:
  "fit (const_source (1 / 2)) ([] :: real list)
     \<lparr>alpha = 1, likelihood_fn = uniform_likelihood, num_iter = 100, eb_start = 20, eb_interval = 5\<rparr> () =
   Inr (\<lparr>alpha = 0, likelihood_fn = uniform_likelihood, num_iter = 100, eb_start = 20, eb_interval = 5\<rparr>,
        (), \<lparr>store = [], clustering = [], cluster_assn = []\<rparr>)"
proof -
  let ?m = "\<lparr>alpha = 1, likelihood_fn = uniform_likelihood :: real likelihood, num_iter = 100,
      eb_start = 20, eb_interval = 5\<rparr>"
  have "eb_fires ?m 25" by (simp add: eb_fires_def)
  then have "list_ex (eb_fires ?m) [0..<nat (num_iter ?m)]"
    unfolding list_ex_iff by (intro bexI[of _ 25]) simp_all
  with empty_fit[of ?m "const_source (1 / 2)" "()"] show ?thesis
    by (simp add: empty_state_def)
qed

theorem empty_dataset_witness:
  "eb_interval (demo_model 3 (uniform_likelihood :: real likelihood)\<lparr>num_iter := 10\<rparr>) \<noteq> 0 \<and>
   fit (const_source (1 / 2)) ([] :: real list) (demo_model 3 uniform_likelihood\<lparr>num_iter := 10\<rparr>) () =
   Inr (demo_model 3 uniform_likelihood\<lparr>num_iter := 10\<rparr>, (),
        \<lparr>store = [], clustering = [], cluster_assn = []\<rparr>)"
proof -
  let ?m = "demo_model 3 (uniform_likelihood :: real likelihood)\<lparr>num_iter := 10\<rparr>"
  have e: "eb_interval ?m \<noteq> 0" by (simp add: demo_model_def)
  have n: "\<not> (\<exists>t<nat (num_iter ?m). int t mod eb_interval ?m = 0 \<and> eb_start ?m < int t)"
    by (simp add: demo_model_def)
  from empty_dataset[OF e, of "const_source (1 / 2)" "()"] e show ?thesis
    unfolding if_not_P[OF n] by (simp add: demo_model_def)
qed

subsection \<open>Determinism\<close>

lemma same_samples_step:
  assumes "same_samples rs g rs' g'"
  shows "fst (rs g) = fst (rs' g')" and "same_samples rs (snd (rs g)) rs' (snd (rs' g'))"
proof -
  from assms have a: "\<And>n. sample_at rs g n = sample_at rs' g' n"
    by (simp add: same_samples_def)
  from a[of 0] show "fst (rs g) = fst (rs' g')" by simp
  from a[of "Suc n" for n] show "same_samples rs (snd (rs g)) rs' (snd (rs' g'))"
    by (simp add: same_samples_def)
qed

lemma choice_rel:
  assumes "same_samples rs g rs' g'"
  shows "rel_sum (=) (rel_prod (=) (\<lambda>h h'. same_samples rs h rs' h'))
           (np_random_choice rs g p) (np_random_choice rs' g' p)"
proof (cases p)
  case None
  then show ?thesis by (simp add: np_random_choice_def)
next
  case (Some ps)
  obtain u h where r: "rs g = (u, h)" by (cases "rs g")
  obtain u' h' where r': "rs' g' = (u', h')" by (cases "rs' g'")
  from same_samples_step[OF assms] r r' have "u = u'" "same_samples rs h rs' h'" by simp_all
  with Some r r' show ?thesis by (simp add: np_random_choice_def Let_def)
qed

lemma draw_rel:
  assumes "same_samples rs g rs' g'"
  shows "rel_sum (=) (rel_prod (=) (\<lambda>h h'. same_samples rs h rs' h'))
           (draw_cluster rs g prior lik) (draw_cluster rs' g' prior lik)"
  unfolding draw_cluster_def using choice_rel[OF assms] by (cases "np_multiply prior lik") simp_all

lemma init_step_rel:
  assumes "same_samples rs g rs' g'"
  shows "rel_sum (=) (rel_prod (\<lambda>h h'. same_samples rs h rs' h') (=))
           (init_step m rs data i (g, st)) (init_step m rs' data i (g', st))"
proof (cases "init_prior m i st")
  case (Inl e)
  then show ?thesis by (simp add: init_step_def)
next
  case (Inr prior)
  let ?L = "likelihood_fn m data i (deref st (clustering st)) (deref st (cluster_assn st))"
  from draw_rel[OF assms, of prior ?L] show ?thesis
    by (cases "draw_cluster rs g prior ?L"; cases "draw_cluster rs' g' prior ?L")
      (auto simp: init_step_def Inr Let_def)
qed

lemma sweep_step_rel:
  assumes "same_samples rs g rs' g'"
  shows "rel_sum (=) (rel_prod (\<lambda>h h'. same_samples rs h rs' h') (=))
           (sweep_step m rs data i (g, st, n)) (sweep_step m rs' data i (g', st, n))"
proof (cases "detach i st")
  case (Inl e)
  then show ?thesis by (simp add: sweep_step_def)
next
  case d: (Inr st1)
  show ?thesis
  proof (cases "sweep_prior m data st1")
    case (Inl e)
    then show ?thesis by (simp add: sweep_step_def d)
  next
    case (Inr prior)
    let ?L = "likelihood_fn m data i (deref st1 (clustering st1)) (deref st1 (cluster_assn st1))"
    from draw_rel[OF assms, of prior ?L] show ?thesis
      by (cases "draw_cluster rs g prior ?L"; cases "draw_cluster rs' g' prior ?L")
        (auto simp: sweep_step_def d Inr Let_def)
  qed
qed

lemma for_each_rel:
  assumes step: "\<And>x s t. Q s t \<Longrightarrow> rel_sum (=) Q (f x s) (f' x t)"
  shows "Q s t \<Longrightarrow> rel_sum (=) Q (for_each f xs s) (for_each f' xs t)"
proof (induction xs arbitrary: s t)
  case Nil
  then show ?case by simp
next
  case (Cons x xs)
  from step[OF Cons.prems, of x] show ?case
    by (cases "f x s"; cases "f' x t") (auto intro: Cons.IH)
qed

lemma gibbs_iteration_rel:
  assumes "same_samples rs g rs' g'"
  shows "rel_sum (=) (rel_prod (=) (rel_prod (\<lambda>h h'. same_samples rs h rs' h') (=)))
           (gibbs_iteration rs data t (m, g, st)) (gibbs_iteration rs' data t (m, g', st))"
proof -
  let ?Q = "rel_prod (\<lambda>h h'. same_samples rs h rs' h') ((=) :: pstate \<times> real \<Rightarrow> _)"
  have "rel_sum (=) ?Q (for_each (sweep_step m rs data) [0..<length data] (g, st, 0))
          (for_each (sweep_step m rs' data) [0..<length data] (g', st, 0))"
  proof (rule for_each_rel)
    show "?Q (g, st, 0) (g', st, 0)" using assms by simp
    show "rel_sum (=) ?Q (sweep_step m rs data x s) (sweep_step m rs' data x t)" if "?Q s t" for x s t
      using that sweep_step_rel[of rs "fst s" rs' "fst t" m data x "fst (snd s)" "snd (snd s)"]
      by (cases s; cases t) auto
  qed
  then show ?thesis
    by (cases "for_each (sweep_step m rs data) [0..<length data] (g, st, 0)";
        cases "for_each (sweep_step m rs' data) [0..<length data] (g', st, 0)")
      (auto simp: gibbs_iteration_def split: sum.splits)
qed

lemma fit_upto_rel:
  assumes "same_samples rs g rs' g'"
  shows "rel_sum (=) (rel_prod (=) (rel_prod (\<lambda>h h'. same_samples rs h rs' h') (=)))
           (fit_upto rs data T m g) (fit_upto rs' data T m g')"
proof -
  let ?G = "\<lambda>h h'. same_samples rs h rs' h'"
  let ?Q = "rel_prod ?G ((=) :: pstate \<Rightarrow> _)"
  let ?R = "rel_prod ((=) :: 'c crp_model \<Rightarrow> _) (rel_prod ?G ((=) :: pstate \<Rightarrow> _))"
  have i: "rel_sum (=) ?Q (initialize_assn m rs data g) (initialize_assn m rs' data g')"
    unfolding initialize_assn_def
  proof (rule for_each_rel)
    show "?Q (g, empty_state) (g', empty_state)" using assms by simp
    show "rel_sum (=) ?Q (init_step m rs data x s) (init_step m rs' data x t)" if "?Q s t" for x s t
      using that init_step_rel[of rs "fst s" rs' "fst t" m data x "snd s"]
      by (cases s; cases t) auto
  qed
  have l: "rel_sum (=) ?R (for_each (gibbs_iteration rs data) [0..<T] (m, h, st))
             (for_each (gibbs_iteration rs' data) [0..<T] (m, h', st))"
    if "?G h h'" for h h' st
  proof (rule for_each_rel)
    show "?R (m, h, st) (m, h', st)" using that by simp
    show "rel_sum (=) ?R (gibbs_iteration rs data x s) (gibbs_iteration rs' data x t)"
      if "?R s t" for x s t
      using that gibbs_iteration_rel[of rs "fst (snd s)" rs' "fst (snd t)" data x "fst s" "snd (snd s)"]
      by (cases s; cases t) auto
  qed
  from i show ?thesis
    by (cases "initialize_assn m rs data g"; cases "initialize_assn m rs' data g'")
      (auto simp: fit_upto_def intro: l)
qed

lemma fit_rel:
  assumes "same_samples rs g rs' g'"
  shows "observable (fit rs data m g) = observable (fit rs' data m g')"
  using fit_upto_rel[OF assms, of data "nat (num_iter m)" m]
  by (cases "fit_upto rs data (nat (num_iter m)) m g";
      cases "fit_upto rs' data (nat (num_iter m)) m g'")
    (auto simp: fit_def observable_def)

text \<open>
  Claim C6, as amended. Two runs of \<open>fit\<close> on the same dataset that start from the same
  sampler object (the same \<open>alpha\<close>, likelihood provider, \<open>num_iter\<close>, \<open>eb_start\<close> and
  \<open>eb_interval\<close>) and from generators that produce the same uniform samples (the same seed
  in particular) end alike: with the same error, or with the same final \<open>alpha\<close>,
  clustering and assignment. Each draw is the same in both, and leaves generators that
  again produce the same samples. A second call on the same object is not such a run when
  the first call has overwritten \<open>alpha\<close>.
\<close>

theorem determinism:
  assumes "same_samples rs g rs' g'"
  shows "observable (fit rs data m g) = observable (fit rs' data m g') \<and>
         (np_random_choice rs g p = Inr (c, h) \<longrightarrow>
            (\<exists>h'. np_random_choice rs' g' p = Inr (c, h') \<and> same_samples rs h rs' h'))"
proof
  show "observable (fit rs data m g) = observable (fit rs' data m g')"
    by (rule fit_rel[OF assms])
  show "np_random_choice rs g p = Inr (c, h) \<longrightarrow>
          (\<exists>h'. np_random_choice rs' g' p = Inr (c, h') \<and> same_samples rs h rs' h')"
    using choice_rel[OF assms, of p]
    by (cases "np_random_choice rs' g' p") auto
qed

lemma sample_at_const: "sample_at (const_source u) g n = u"
  by (induction n) (simp_all add: const_source_def)

lemma sample_at_counting: "sample_at (counting_source u) k n = u"
  by (induction n arbitrary: k) (simp_all add: counting_source_def)

theorem determinism_witness:
  "same_samples (const_source (1 / 2)) () (counting_source (1 / 2)) 0 \<and>
   observable (fit (const_source (1 / 2)) [0 :: real, 1] (demo_model 1 uniform_likelihood) ()) =
   observable (fit (counting_source (1 / 2)) [0 :: real, 1] (demo_model 1 uniform_likelihood) 0) \<and>
   np_random_choice (const_source (1 / 2)) () (Some [1 / 2, 1 / 2]) = Inr (1, ()) \<and>
   (\<exists>h'. np_random_choice (counting_source (1 / 2)) 0 (Some [1 / 2, 1 / 2]) = Inr (1, h') \<and>
         same_samples (const_source (1 / 2)) () (counting_source (1 / 2)) h')"
proof -
  have a: "same_samples (const_source (1 / 2)) () (counting_source (1 / 2)) 0"
    by (simp add: same_samples_def sample_at_const sample_at_counting)
  have b: "np_random_choice (const_source (1 / 2)) () (Some [1 / 2, 1 / 2]) = Inr (1, ())"
    by (simp add: np_random_choice_def atol_def const_source_def)
  from determinism[OF a, of "[0 :: real, 1]" "demo_model 1 uniform_likelihood"
      "Some [1 / 2, 1 / 2]" 1 "()"] a b
  show ?thesis by simp
qed

lemma pair_init:
  "initialize_assn (demo_model 1 first_likelihood) (const_source (1 / 2)) [0 :: real, 1] () =
     Inr ((), one_pair)"
  by (simp add: run_defs demo_model_def const_source_def first_likelihood_def one_pair_def
      insert_commute)

lemma pair_sweep_1:
  "for_each (sweep_step (demo_model 1 first_likelihood) (const_source (1 / 2)) [0 :: real, 1])
     [0..<length [0 :: real, 1]] ((), one_pair, 0) = Inr ((), one_pair, 0)"
  by (simp add: run_defs demo_model_def const_source_def first_likelihood_def one_pair_def
      insert_commute)

lemma pair_sweep_0:
  "for_each (sweep_step (demo_model 0 first_likelihood) (const_source (1 / 2)) [0 :: real, 1])
     [0..<length [0 :: real, 1]] ((), one_pair, 0) = Inr ((), one_pair, 0)"
  by (simp add: run_defs demo_model_def const_source_def first_likelihood_def one_pair_def
      insert_commute)

lemma pair_fit:
  "fit (const_source (1 / 2)) [0 :: real, 1] (demo_model 1 first_likelihood) () =
     Inr (demo_model 0 first_likelihood, (), one_pair)"
proof -
  let ?m = "demo_model 1 first_likelihood :: real crp_model"
  have e: "eb_interval ?m \<noteq> 0" by (simp add: demo_model_def)
  have u: "?m\<lparr>alpha := a\<rparr> = demo_model a first_likelihood" for a
    by (simp add: demo_model_def)
  have "eb_fires ?m 25" by (simp add: eb_fires_def demo_model_def)
  then have f: "list_ex (eb_fires ?m) [0..<nat (num_iter ?m)]"
    unfolding list_ex_iff by (intro bexI[of _ 25]) (simp_all add: demo_model_def)
  have "for_each (gibbs_iteration (const_source (1 / 2)) [0 :: real, 1]) [0..<nat (num_iter ?m)]
          (?m, (), one_pair) =
        Inr (?m\<lparr>alpha := (if list_ex (eb_fires ?m) [0..<nat (num_iter ?m)] then 0 else alpha ?m)\<rparr>,
             (), one_pair)"
  proof (rule stationary_loop[OF e])
    fix a assume "a = alpha ?m \<or> a = 0"
    then have "a = 1 \<or> a = 0" by (simp add: demo_model_def)
    then show "for_each (sweep_step (?m\<lparr>alpha := a\<rparr>) (const_source (1 / 2)) [0 :: real, 1])
        [0..<length [0 :: real, 1]] ((), one_pair, 0) = Inr ((), one_pair, 0)"
      unfolding u using pair_sweep_1 pair_sweep_0 by blast
  qed
  with f pair_init show ?thesis
    by (simp add: fit_def fit_upto_def u)
qed

text \<open>
  Two calls of \<open>fit\<close> on one sampler object, with the same provider, the same two items
  and the same generator state at the start of each: the first returns both items in one
  cluster and leaves \<open>alpha = 0\<close>, the second raises in its first step.
\<close>

theorem determinism_counterexample:
  "fit_output (fit (const_source (1 / 2)) [0 :: real, 1] (demo_model 1 first_likelihood) ()) =
     Inr ([{0, 1}], [{0, 1}, {0, 1}]) \<and>
   fit_output (fit_again (const_source (1 / 2)) [0 :: real, 1] (demo_model 1 first_likelihood) ()) =
     Inl ZeroDivisionError"
proof -
  have "fit (const_source (1 / 2)) [0 :: real, 1] (demo_model 0 first_likelihood) () =
      Inl ZeroDivisionError"
    by (rule zero_alpha_fit) (simp_all add: demo_model_def)
  then show ?thesis
    by (simp add: fit_again_def pair_fit fit_output_def one_pair_def deref_def)
qed

end
